theory Spec2Isabelle
  imports Complex_Main "HOL-Library.Multiset"
begin

section \<open>The traversal engine (extractFromDesign)\<close>

text \<open>
  The engine is the source file that defines \<open>extractFromDesign\<close>,
  \<open>processNodeWithExtractors\<close>, \<open>shouldProcessNode\<close> and \<open>shouldTraverseChildren\<close>; the
  line numbers below are lines of that file.
\<close>

subsection \<open>Data model\<close>

text \<open>
  The errors the engine can raise. It has no \<open>throw\<close> of its own: the only failure is the
  TypeError of the JavaScript runtime when a property of \<open>undefined\<close> is read.
\<close>

datatype error = TypeError

text \<open>
  One entry of an INSTANCE node's \<open>overrides\<close> array. The code reads the array as
  \<open>any[]\<close>, so the \<open>id\<close> of an entry may be absent (\<open>None\<close>).
\<close>

datatype Override = Override (override_id: "string option")

text \<open>
  What a field that should hold an array may hold at run time. The nodes come from parsed
  JSON, and the engine reads \<open>children\<close> and \<open>overrides\<close> without trusting their
  declared types: a field is absent (undefined), null, an array, or another value that is
  not an array (a string, a number, an object). Of such a value \<open>NotArray b\<close> the engine can
  only see whether \<open>value.length > 0\<close> holds, which is \<open>b\<close>; it has no array methods.
\<close>

datatype 'a JsField = Absent | JsNull | NotArray bool | JsArray "'a list"

text \<open>
  A node of the input tree, with the fields the engine reads: \<open>id\<close>, \<open>name\<close>,
  \<open>type\<close>, the optional \<open>visible\<close> flag, \<open>children\<close> and \<open>overrides\<close>. The other
  fields of a node (paints, text, layout), which only extractors read, are its \<open>payload\<close>.
\<close>

datatype RawNode =
  RawNode (node_id: string) (node_name: string) (node_type: string)
    (visible: "bool option") (payload: "(string \<times> string) list")
    (children: "RawNode JsField") (overrides: "Override JsField")

text \<open>
  A node of the output: the base fields, the named fields contributed by the extractors
  and the optional \<open>children\<close> array.
\<close>

datatype SimplifiedNode =
  SimplifiedNode (s_id: string) (s_name: string) (s_type: string)
    (s_fields: "(string \<times> string) list") (s_children: "SimplifiedNode list option")

record GlobalVars =
  styles :: "(string \<times> string) list"

text \<open>
  \<open>maxDepth\<close> is any number: the engine only compares the current depth with it, so it may
  be negative or fractional. (A \<open>NaN\<close> or infinite bound never stops the descent, like an
  absent one; minus infinity stops it everywhere, like \<open>-1\<close>.) \<open>includeFullInstanceData\<close> is
  only tested for truthiness, so an absent option is \<open>False\<close>.
\<close>

record TraversalOptions =
  maxDepth :: "real option"
  nodeFilter :: "(RawNode \<Rightarrow> bool) option"
  includeFullInstanceData :: bool

record TraversalContext =
  globalVars :: GlobalVars
  currentDepth :: nat
  options :: TraversalOptions
  parent :: "RawNode option"

text \<open>
  Modelled from the spec: \<open>ExtractorFn\<close> is declared in \<open>types.ts\<close>, which is not among the
  sources. An extractor reads one raw node, the output node built so far and the context;
  it contributes named fields to the output node and entries to the style table. Here it
  returns the new field list of the output node and the new style table.
\<close>

type_synonym ExtractorFn =
  "RawNode \<Rightarrow> SimplifiedNode \<Rightarrow> TraversalContext \<Rightarrow> (string \<times> string) list \<times> GlobalVars"

subsection \<open>Helpers imported by the engine\<close>

text \<open>
  Modelled from the spec: \<open>isVisible\<close> of \<open>utils/common.ts\<close> is not among the sources. A
  node is invisible exactly when its visibility flag is false.
\<close>

definition isVisible :: "RawNode \<Rightarrow> bool" where
  "isVisible node = (visible node \<noteq> Some False)"

text \<open>
  Modelled from the spec: \<open>hasValue\<close> of \<open>utils/identity.ts\<close> is not among the sources.
  \<open>hasValue(key, obj)\<close> holds when the field \<open>key\<close> of \<open>obj\<close> is present, that is not
  undefined; a null field is present.
\<close>

definition hasValue :: "'a JsField \<Rightarrow> bool" where
  "hasValue field = (field \<noteq> Absent)"

text \<open>\<open>Array.isArray\<close>, and the elements of an array.\<close>

definition isArray :: "'a JsField \<Rightarrow> bool" where
  "isArray field = (case field of JsArray xs \<Rightarrow> True | _ \<Rightarrow> False)"

definition elems :: "'a JsField \<Rightarrow> 'a list" where
  "elems field = (case field of JsArray xs \<Rightarrow> xs | _ \<Rightarrow> [])"

text \<open>
  \<open>field.length > 0\<close> for a field that is present: reading \<open>length\<close> of null is a
  TypeError.
\<close>

definition lengthPositive :: "'a JsField \<Rightarrow> error + bool" where
  "lengthPositive field =
     (case field of
        JsArray xs \<Rightarrow> Inr (length xs > 0)
      | NotArray b \<Rightarrow> Inr b
      | JsNull \<Rightarrow> Inl TypeError
      | Absent \<Rightarrow> Inl TypeError)"

text \<open>
  Calling an array method (\<open>filter\<close>, \<open>map\<close>) on a field: a TypeError unless it is an
  array.
\<close>

definition asArray :: "'a JsField \<Rightarrow> error + 'a list" where
  "asArray field = (case field of JsArray xs \<Rightarrow> Inr xs | _ \<Rightarrow> Inl TypeError)"

text \<open>\<open>String.prototype.split\<close> with a one-character separator.\<close>

fun js_split :: "char \<Rightarrow> string \<Rightarrow> string list" where
  "js_split sep [] = [[]]"
| "js_split sep (c # cs) =
     (if c = sep then [] # js_split sep cs
      else (c # hd (js_split sep cs)) # tl (js_split sep cs))"

text \<open>Indexing a JavaScript array: out of range is \<open>undefined\<close>.\<close>

fun js_index :: "'a list \<Rightarrow> nat \<Rightarrow> 'a option" where
  "js_index [] i = None"
| "js_index (x # xs) 0 = Some x"
| "js_index (x # xs) (Suc i) = js_index xs i"

subsection \<open>The engine\<close>

text \<open>Lines 114-126.\<close>

definition shouldProcessNode :: "RawNode \<Rightarrow> TraversalOptions \<Rightarrow> bool" where
  "shouldProcessNode node opts =
     (if \<not> isVisible node then False
      else if (case nodeFilter opts of None \<Rightarrow> False | Some f \<Rightarrow> \<not> f node) then False
      else True)"

text \<open>Lines 131-154.\<close>

definition shouldTraverseChildren ::
  "RawNode \<Rightarrow> TraversalContext \<Rightarrow> TraversalOptions \<Rightarrow> bool" where
  "shouldTraverseChildren node ctx opts =
     (if (case maxDepth opts of None \<Rightarrow> False | Some d \<Rightarrow> real (currentDepth ctx) \<ge> d)
      then False
      else if node_type node = ''INSTANCE'' \<and> \<not> includeFullInstanceData opts then
        (if hasValue (overrides node) \<and> isArray (overrides node)
            \<and> length (elems (overrides node)) > 0 then True
         else False)
      else True)"

text \<open>
  Lines 84-87, the function mapped over the overrides: the target of one override. Reading
  \<open>includes\<close> of an absent id is a TypeError.
\<close>

definition overrideTarget :: "Override \<Rightarrow> error + string option" where
  "overrideTarget override =
     (case override_id override of
        None \<Rightarrow> Inl TypeError
      | Some s \<Rightarrow>
          Inr (if CHR '';'' \<in> set s then js_index (js_split CHR '';'' s) 1 else Some s))"

text \<open>\<open>Array.prototype.map\<close> with a callback that may throw: the first throw ends the map.\<close>

fun mapOverrides :: "Override list \<Rightarrow> error + string option list" where
  "mapOverrides [] = Inr []"
| "mapOverrides (ov # ovs) =
     (case overrideTarget ov of
        Inl e \<Rightarrow> Inl e
      | Inr t \<Rightarrow> (case mapOverrides ovs of Inl e \<Rightarrow> Inl e | Inr ts \<Rightarrow> Inr (t # ts)))"

text \<open>
  Lines 83-88: the set of override targets. \<open>overrides?.map(...) || []\<close> is the empty
  list for a null or undefined \<open>overrides\<close>, and a TypeError for a value without \<open>map\<close>.
\<close>

definition overrideNodeIds :: "Override JsField \<Rightarrow> error + string option list" where
  "overrideNodeIds field =
     (case field of
        Absent \<Rightarrow> Inr []
      | JsNull \<Rightarrow> Inr []
      | NotArray b \<Rightarrow> Inl TypeError
      | JsArray ovs \<Rightarrow> mapOverrides ovs)"

text \<open>
  Lines 79-98: the children handed to the recursion, before the filter of line 98. The
  \<open>filter\<close> of line 90, or else that of line 98, is called on \<open>node.children\<close>, which is a
  TypeError when it is not an array.
\<close>

definition childrenToProcess :: "RawNode \<Rightarrow> TraversalOptions \<Rightarrow> error + RawNode list" where
  "childrenToProcess node opts =
     (if node_type node = ''INSTANCE'' \<and> \<not> includeFullInstanceData opts
         \<and> hasValue (overrides node) then
        (case overrideNodeIds (overrides node) of
           Inl e \<Rightarrow> Inl e
         | Inr ids \<Rightarrow>
             (case asArray (children node) of
                Inl e \<Rightarrow> Inl e
              | Inr cs \<Rightarrow>
                  Inr (filter (\<lambda>child. Some (node_id child) \<in> set ids
                                 \<or> (hasValue (children child) \<and> isArray (children child)
                                     \<and> length (elems (children child)) > 0))
                         cs)))
      else asArray (children node))"

text \<open>
  Line 78: \<open>hasValue("children", node) && node.children.length > 0\<close>.
\<close>

definition hasChildren :: "RawNode \<Rightarrow> error + bool" where
  "hasChildren node =
     (if hasValue (children node) then lengthPositive (children node) else Inr False)"

text \<open>Lines 65-67: the extractors run in order on the same output node.\<close>

fun applyExtractors ::
  "ExtractorFn list \<Rightarrow> RawNode \<Rightarrow> SimplifiedNode \<Rightarrow> TraversalContext
     \<Rightarrow> SimplifiedNode \<times> GlobalVars" where
  "applyExtractors [] node result ctx = (result, globalVars ctx)"
| "applyExtractors (extractor # rest) node result ctx =
     (case extractor node result ctx of
        (fs, gv) \<Rightarrow>
          applyExtractors rest node
            (SimplifiedNode (s_id result) (s_name result) (s_type result) fs (s_children result))
            (ctx\<lparr>globalVars := gv\<rparr>))"

text \<open>Keeping the non-null entries of an array (lines 36 and 100).\<close>

fun filterNonNull :: "'a option list \<Rightarrow> 'a list" where
  "filterNonNull [] = []"
| "filterNonNull (None # rs) = filterNonNull rs"
| "filterNonNull (Some r # rs) = r # filterNonNull rs"

text \<open>
  Lines 58-62: the base fields of the output node. Lines 47-109: the result is the output
  node (or null), the style table after the call and the log of extractor invocations: the
  node, once for each extractor run on it. \<open>mapProcess\<close> is the \<open>.map\<close> of lines 35 and 99, which calls
  \<open>processNodeWithExtractors\<close> on each element in order; the style table is shared, so
  each call sees what the calls before it stored.
\<close>

definition baseResult :: "RawNode \<Rightarrow> SimplifiedNode" where
  "baseResult node =
     SimplifiedNode (node_id node) (node_name node)
       (if node_type node = ''VECTOR'' then ''IMAGE-SVG'' else node_type node) [] None"

function processNodeWithExtractors ::
  "RawNode \<Rightarrow> ExtractorFn list \<Rightarrow> TraversalContext \<Rightarrow> TraversalOptions
     \<Rightarrow> error + (SimplifiedNode option \<times> GlobalVars \<times> RawNode list)"
and mapProcess ::
  "RawNode list \<Rightarrow> ExtractorFn list \<Rightarrow> TraversalContext \<Rightarrow> TraversalOptions
     \<Rightarrow> error + (SimplifiedNode option list \<times> GlobalVars \<times> RawNode list)" where
  "processNodeWithExtractors node extractors ctx opts =
     (if \<not> shouldProcessNode node opts then Inr (None, globalVars ctx, [])
      else
        let extracted = applyExtractors extractors node (baseResult node) ctx;
            result = fst extracted;
            gv = snd extracted;
            invoked = map (\<lambda>extractor. node) extractors
        in
          if shouldTraverseChildren node ctx opts then
            let childContext = ctx\<lparr>globalVars := gv,
                                   currentDepth := currentDepth ctx + 1,
                                   parent := Some node\<rparr>
            in
              (case hasChildren node of
                 Inl e \<Rightarrow> Inl e
               | Inr False \<Rightarrow> Inr (Some result, gv, invoked)
               | Inr True \<Rightarrow>
                  (case childrenToProcess node opts of
                     Inl e \<Rightarrow> Inl e
                   | Inr toProcess \<Rightarrow>
                       (case mapProcess
                               (filter (\<lambda>child. shouldProcessNode child opts) toProcess)
                               extractors childContext opts of
                          Inl e \<Rightarrow> Inl e
                        | Inr (mapped, gv', invoked') \<Rightarrow>
                            let cs = filterNonNull mapped in
                              Inr (Some (if length cs > 0
                                         then SimplifiedNode (s_id result) (s_name result)
                                                (s_type result) (s_fields result) (Some cs)
                                         else result),
                                   gv', invoked @ invoked'))))
          else Inr (Some result, gv, invoked))"
| "mapProcess [] extractors ctx opts = Inr ([], globalVars ctx, [])"
| "mapProcess (node # rest) extractors ctx opts =
     (case processNodeWithExtractors node extractors ctx opts of
        Inl e \<Rightarrow> Inl e
      | Inr (r, gv, invoked) \<Rightarrow>
          (case mapProcess rest extractors (ctx\<lparr>globalVars := gv\<rparr>) opts of
             Inl e \<Rightarrow> Inl e
           | Inr (rs, gv', invoked') \<Rightarrow> Inr (r # rs, gv', invoked @ invoked')))"
  by pat_completeness auto

lemma size_list_filter_le: "size_list f (filter p xs) \<le> size_list f xs"
  by (induction xs) auto

lemma childrenToProcess_size:
  "childrenToProcess node opts = Inr cs \<Longrightarrow> size_list size cs < size node"
proof -
  assume a: "childrenToProcess node opts = Inr cs"
  then obtain ks where ks: "children node = JsArray ks"
    by (cases "children node")
       (auto simp: childrenToProcess_def asArray_def split: if_splits sum.splits)
  have le: "size_list size cs \<le> size_list size ks"
    using a ks
    by (auto simp: childrenToProcess_def asArray_def size_list_filter_le
             split: if_splits sum.splits)
  have "size_list size ks < size node"
    using ks by (cases node) simp
  with le show ?thesis by simp
qed

lemma childrenToProcess_measure:
  "childrenToProcess node opts = Inr cs
     \<Longrightarrow> Suc (2 * size_list size (filter p cs)) < 2 * size node"
  using childrenToProcess_size [of node opts cs] size_list_filter_le [of size p cs]
  by simp

termination processNodeWithExtractors
  by (relation "measure (\<lambda>x. case x of
          Inl (node, _) \<Rightarrow> 2 * size node
        | Inr (rawNodes, _) \<Rightarrow> 2 * size_list size rawNodes + 1)")
     (auto simp: childrenToProcess_measure)

text \<open>Lines 21-42.\<close>

record ExtractResult =
  nodes :: "SimplifiedNode list"
  resultVars :: GlobalVars
  invocations :: "RawNode list"

definition extractFromDesign ::
  "RawNode list \<Rightarrow> ExtractorFn list \<Rightarrow> TraversalOptions \<Rightarrow> GlobalVars
     \<Rightarrow> error + ExtractResult" where
  "extractFromDesign rawNodes extractors opts gv =
     (let ctx = \<lparr>globalVars = gv, currentDepth = 0, options = opts, parent = None\<rparr> in
        case mapProcess (filter (\<lambda>node. shouldProcessNode node opts) rawNodes)
               extractors ctx opts of
          Inl e \<Rightarrow> Inl e
        | Inr (mapped, gv', invoked) \<Rightarrow>
            Inr \<lparr>nodes = filterNonNull mapped, resultVars = gv', invocations = invoked\<rparr>)"

section \<open>The traversal engine over a store of node objects\<close>

text \<open>
  The input nodes are objects of the caller, and an extractor is handed the node object
  itself: it could write to it, or to any node it reaches from it or from the context. To
  speak about what a pass leaves of the caller's tree, the engine is modelled once more with
  the nodes in a store: a node is an address, its \<open>children\<close> array holds addresses, and
  every read of a field is a read of the store at that moment.
\<close>

type_synonym addr = nat

record NodeObject =
  obj_id :: string
  obj_name :: string
  obj_type :: string
  obj_visible :: "bool option"
  obj_payload :: "(string \<times> string) list"
  obj_children :: "addr JsField"
  obj_overrides :: "Override JsField"

type_synonym Store = "addr \<Rightarrow> NodeObject"

text \<open>The node filter is a predicate of the caller; it reads the store.\<close>

record StoreOptions =
  st_maxDepth :: "real option"
  st_nodeFilter :: "(Store \<Rightarrow> addr \<Rightarrow> bool) option"
  st_includeFullInstanceData :: bool

record StoreContext =
  st_globalVars :: GlobalVars
  st_currentDepth :: nat
  st_options :: StoreOptions
  st_parent :: "addr option"

text \<open>
  Modelled from the spec: \<open>ExtractorFn\<close> (\<open>types.ts\<close> is not among the sources), as above,
  with the store it may write to: it returns the store it leaves.
\<close>

type_synonym StoreExtractorFn =
  "Store \<Rightarrow> addr \<Rightarrow> SimplifiedNode \<Rightarrow> StoreContext
     \<Rightarrow> ((string \<times> string) list \<times> GlobalVars) \<times> Store"

text \<open>Modelled from the spec: \<open>isVisible\<close>, as above.\<close>

definition isVisible_store :: "NodeObject \<Rightarrow> bool" where
  "isVisible_store node = (obj_visible node \<noteq> Some False)"

text \<open>Lines 114-126.\<close>

definition shouldProcessNode_store :: "Store \<Rightarrow> addr \<Rightarrow> StoreOptions \<Rightarrow> bool" where
  "shouldProcessNode_store store node opts =
     (if \<not> isVisible_store (store node) then False
      else if (case st_nodeFilter opts of None \<Rightarrow> False | Some f \<Rightarrow> \<not> f store node) then False
      else True)"

text \<open>Lines 131-154.\<close>

definition shouldTraverseChildren_store ::
  "Store \<Rightarrow> addr \<Rightarrow> StoreContext \<Rightarrow> StoreOptions \<Rightarrow> bool" where
  "shouldTraverseChildren_store store node ctx opts =
     (if (case st_maxDepth opts of
            None \<Rightarrow> False
          | Some d \<Rightarrow> real (st_currentDepth ctx) \<ge> d)
      then False
      else if obj_type (store node) = ''INSTANCE'' \<and> \<not> st_includeFullInstanceData opts then
        (if hasValue (obj_overrides (store node)) \<and> isArray (obj_overrides (store node))
            \<and> length (elems (obj_overrides (store node))) > 0 then True
         else False)
      else True)"

text \<open>Lines 79-95.\<close>

definition childrenToProcess_store :: "Store \<Rightarrow> addr \<Rightarrow> StoreOptions \<Rightarrow> error + addr list" where
  "childrenToProcess_store store node opts =
     (if obj_type (store node) = ''INSTANCE'' \<and> \<not> st_includeFullInstanceData opts
         \<and> hasValue (obj_overrides (store node)) then
        (case overrideNodeIds (obj_overrides (store node)) of
           Inl e \<Rightarrow> Inl e
         | Inr ids \<Rightarrow>
             (case asArray (obj_children (store node)) of
                Inl e \<Rightarrow> Inl e
              | Inr cs \<Rightarrow>
                  Inr (filter (\<lambda>child. Some (obj_id (store child)) \<in> set ids
                                 \<or> (hasValue (obj_children (store child))
                                     \<and> isArray (obj_children (store child))
                                     \<and> length (elems (obj_children (store child))) > 0))
                         cs)))
      else asArray (obj_children (store node)))"

text \<open>Line 78.\<close>

definition hasChildren_store :: "Store \<Rightarrow> addr \<Rightarrow> error + bool" where
  "hasChildren_store store node =
     (if hasValue (obj_children (store node)) then lengthPositive (obj_children (store node))
      else Inr False)"

text \<open>Lines 65-67.\<close>

fun applyExtractors_store ::
  "StoreExtractorFn list \<Rightarrow> Store \<Rightarrow> addr \<Rightarrow> SimplifiedNode \<Rightarrow> StoreContext
     \<Rightarrow> (SimplifiedNode \<times> GlobalVars) \<times> Store" where
  "applyExtractors_store [] store node result ctx = ((result, st_globalVars ctx), store)"
| "applyExtractors_store (extractor # rest) store node result ctx =
     (case extractor store node result ctx of
        ((fs, gv), store') \<Rightarrow>
          applyExtractors_store rest store' node
            (SimplifiedNode (s_id result) (s_name result) (s_type result) fs (s_children result))
            (ctx\<lparr>st_globalVars := gv\<rparr>))"

text \<open>
  Lines 58-62 and 47-109. A store may hold a cycle, on which the recursion of the source
  does not end; the first argument bounds the depth of the recursion, and \<open>None\<close> is a
  pass that needs a deeper recursion than that. The fields of a node are read from the
  store as it is when the source reads them: the base fields and the gates before the
  extractors run, the children after.
\<close>

definition baseResult_store :: "NodeObject \<Rightarrow> SimplifiedNode" where
  "baseResult_store node =
     SimplifiedNode (obj_id node) (obj_name node)
       (if obj_type node = ''VECTOR'' then ''IMAGE-SVG'' else obj_type node) [] None"

fun processNodeWithExtractors_store ::
  "nat \<Rightarrow> Store \<Rightarrow> addr \<Rightarrow> StoreExtractorFn list \<Rightarrow> StoreContext \<Rightarrow> StoreOptions
     \<Rightarrow> (error + (SimplifiedNode option \<times> GlobalVars \<times> Store)) option"
and mapProcess_store ::
  "nat \<Rightarrow> Store \<Rightarrow> addr list \<Rightarrow> StoreExtractorFn list \<Rightarrow> StoreContext \<Rightarrow> StoreOptions
     \<Rightarrow> (error + (SimplifiedNode option list \<times> GlobalVars \<times> Store)) option" where
  "processNodeWithExtractors_store 0 store node extractors ctx opts = None"
| "processNodeWithExtractors_store (Suc fuel) store node extractors ctx opts =
     (if \<not> shouldProcessNode_store store node opts
      then Some (Inr (None, st_globalVars ctx, store))
      else
        let extracted = applyExtractors_store extractors store node
                          (baseResult_store (store node)) ctx;
            result = fst (fst extracted);
            gv = snd (fst extracted);
            store' = snd extracted
        in
          if shouldTraverseChildren_store store' node ctx opts then
            let childContext = ctx\<lparr>st_globalVars := gv,
                                   st_currentDepth := st_currentDepth ctx + 1,
                                   st_parent := Some node\<rparr>
            in
              (case hasChildren_store store' node of
                 Inl e \<Rightarrow> Some (Inl e)
               | Inr False \<Rightarrow> Some (Inr (Some result, gv, store'))
               | Inr True \<Rightarrow>
                  (case childrenToProcess_store store' node opts of
                     Inl e \<Rightarrow> Some (Inl e)
                   | Inr toProcess \<Rightarrow>
                       (case mapProcess_store fuel store'
                               (filter (\<lambda>child. shouldProcessNode_store store' child opts)
                                  toProcess)
                               extractors childContext opts of
                          None \<Rightarrow> None
                        | Some (Inl e) \<Rightarrow> Some (Inl e)
                        | Some (Inr (mapped, gv', store'')) \<Rightarrow>
                            let cs = filterNonNull mapped in
                              Some (Inr (Some (if length cs > 0
                                               then SimplifiedNode (s_id result)
                                                      (s_name result) (s_type result)
                                                      (s_fields result) (Some cs)
                                               else result),
                                         gv', store'')))))
          else Some (Inr (Some result, gv, store')))"
| "mapProcess_store fuel store [] extractors ctx opts =
     Some (Inr ([], st_globalVars ctx, store))"
| "mapProcess_store fuel store (node # rest) extractors ctx opts =
     (case processNodeWithExtractors_store fuel store node extractors ctx opts of
        None \<Rightarrow> None
      | Some (Inl e) \<Rightarrow> Some (Inl e)
      | Some (Inr (r, gv, store')) \<Rightarrow>
          (case mapProcess_store fuel store' rest extractors (ctx\<lparr>st_globalVars := gv\<rparr>) opts of
             None \<Rightarrow> None
           | Some (Inl e) \<Rightarrow> Some (Inl e)
           | Some (Inr (rs, gv', store'')) \<Rightarrow> Some (Inr (r # rs, gv', store''))))"

text \<open>Lines 21-42. The result holds the output nodes, the style table and the store left.\<close>

definition extractFromDesign_store ::
  "nat \<Rightarrow> Store \<Rightarrow> addr list \<Rightarrow> StoreExtractorFn list \<Rightarrow> StoreOptions \<Rightarrow> GlobalVars
     \<Rightarrow> (error + (SimplifiedNode list \<times> GlobalVars \<times> Store)) option" where
  "extractFromDesign_store fuel store rawNodes extractors opts gv =
     (let ctx = \<lparr>st_globalVars = gv, st_currentDepth = 0, st_options = opts, st_parent = None\<rparr> in
        case mapProcess_store fuel store
               (filter (\<lambda>node. shouldProcessNode_store store node opts) rawNodes)
               extractors ctx opts of
          None \<Rightarrow> None
        | Some (Inl e) \<Rightarrow> Some (Inl e)
        | Some (Inr (mapped, gv', store')) \<Rightarrow> Some (Inr (filterNonNull mapped, gv', store')))"

section \<open>Retrying an operation (utils/error-handling.ts)\<close>

text \<open>Lines 6-26.\<close>

datatype ErrorType =
    NETWORK_ERROR | TIMEOUT_ERROR
  | API_ERROR | RATE_LIMIT_ERROR | AUTHENTICATION_ERROR
  | NOT_FOUND_ERROR | PERMISSION_ERROR
  | PARSING_ERROR | VALIDATION_ERROR
  | UNKNOWN_ERROR


















section \<open>Notions used to state the properties\<close>

text \<open>All nodes of an output subtree, the root first.\<close>

fun output_nodes :: "SimplifiedNode \<Rightarrow> SimplifiedNode list" where
  "output_nodes (SimplifiedNode i n t fs cs) =
     SimplifiedNode i n t fs cs #
       (case cs of None \<Rightarrow> [] | Some ks \<Rightarrow> concat (map output_nodes ks))"

text \<open>
  The descent test of lines 70 and 78 at a given depth: \<open>shouldTraverseChildren\<close> holds and
  so does the test of line 78.
\<close>

definition descends :: "RawNode \<Rightarrow> nat \<Rightarrow> TraversalOptions \<Rightarrow> bool" where
  "descends node depth opts =
     (shouldTraverseChildren node
        \<lparr>globalVars = \<lparr>styles = []\<rparr>, currentDepth = depth, options = opts, parent = None\<rparr> opts
      \<and> hasChildren node = Inr True)"

text \<open>The children handed to the recursion in lines 97-99, and the update of line 103.\<close>

definition kept :: "RawNode \<Rightarrow> TraversalOptions \<Rightarrow> RawNode list" where
  "kept node opts =
     filter (\<lambda>child. shouldProcessNode child opts)
       (case childrenToProcess node opts of Inl e \<Rightarrow> [] | Inr cs \<Rightarrow> cs)"

definition withChildren :: "SimplifiedNode \<Rightarrow> SimplifiedNode list \<Rightarrow> SimplifiedNode" where
  "withChildren r cs =
     (if cs = [] then r
      else SimplifiedNode (s_id r) (s_name r) (s_type r) (s_fields r) (Some cs))"

text \<open>
  The input is as its type declares it: in the whole subtree, a \<open>children\<close> field that is
  present is an array of nodes, and every entry of the \<open>overrides\<close> array of an INSTANCE
  node has an id string.
\<close>

fun well_formed :: "RawNode \<Rightarrow> bool" where
  "well_formed (RawNode i n t v pl cs ov) =
     ((case cs of
         Absent \<Rightarrow> True
       | JsArray ks \<Rightarrow> list_all well_formed ks
       | _ \<Rightarrow> False) \<and>
      (if t = ''INSTANCE''
       then (case ov of
               JsArray os \<Rightarrow> list_all (\<lambda>override. override_id override \<noteq> None) os
             | _ \<Rightarrow> True)
       else True))"

text \<open>
  All nodes of an input subtree; those reached from the root through visible nodes only;
  and the others: every node that is invisible or lies below an invisible node.
\<close>

fun subtree_nodes :: "RawNode \<Rightarrow> RawNode list" where
  "subtree_nodes (RawNode i n t v pl cs ov) =
     RawNode i n t v pl cs ov #
       (case cs of JsArray ks \<Rightarrow> concat (map subtree_nodes ks) | _ \<Rightarrow> [])"

fun visible_nodes :: "RawNode \<Rightarrow> RawNode list" where
  "visible_nodes (RawNode i n t v pl cs ov) =
     (if v = Some False then []
      else RawNode i n t v pl cs ov #
             (case cs of JsArray ks \<Rightarrow> concat (map visible_nodes ks) | _ \<Rightarrow> []))"

fun hidden_nodes :: "RawNode \<Rightarrow> RawNode list" where
  "hidden_nodes (RawNode i n t v pl cs ov) =
     (if v = Some False then subtree_nodes (RawNode i n t v pl cs ov)
      else (case cs of JsArray ks \<Rightarrow> concat (map hidden_nodes ks) | _ \<Rightarrow> []))"

text \<open>The output nodes \<open>k\<close> levels below an output node.\<close>

fun at_level :: "nat \<Rightarrow> SimplifiedNode \<Rightarrow> SimplifiedNode list" where
  "at_level 0 x = [x]"
| "at_level (Suc k) x =
     (case s_children x of None \<Rightarrow> [] | Some cs \<Rightarrow> concat (map (at_level k) cs))"

text \<open>
  The base fields an output node carries, and the base fields a retained input node is to
  give it: its id, its name and its type, with \<open>IMAGE-SVG\<close> for the type \<open>VECTOR\<close>.
\<close>

definition out_fields :: "SimplifiedNode \<Rightarrow> string \<times> string \<times> string" where
  "out_fields x = (s_id x, s_name x, s_type x)"

definition base_fields :: "RawNode \<Rightarrow> string \<times> string \<times> string" where
  "base_fields node =
     (node_id node, node_name node,
      if node_type node = ''VECTOR'' then ''IMAGE-SVG'' else node_type node)"

text \<open>
  The input nodes the traversal reaches \<open>k\<close> levels below a list of nodes that stand at
  depth \<open>depth\<close>, in the order of the traversal: the nodes of the list that pass the gates,
  then, level by level, the children that the nodes which are descended into hand to the
  recursion.
\<close>

fun reach :: "TraversalOptions \<Rightarrow> nat \<Rightarrow> nat \<Rightarrow> RawNode list \<Rightarrow> RawNode list" where
  "reach opts depth 0 ns = filter (\<lambda>node. shouldProcessNode node opts) ns"
| "reach opts depth (Suc k) ns =
     reach opts (Suc depth) k
       (concat (map (\<lambda>node. if descends node depth opts then kept node opts else [])
                  (filter (\<lambda>node. shouldProcessNode node opts) ns)))"





text \<open>An extractor that writes nothing to the store.\<close>

definition preservesStore :: "StoreExtractorFn \<Rightarrow> bool" where
  "preservesStore extractor =
     (\<forall>store node result ctx. snd (extractor store node result ctx) = store)"

text \<open>The subtree of a node in the store is a finite tree of at most \<open>k\<close> levels.\<close>

fun within_depth :: "nat \<Rightarrow> Store \<Rightarrow> addr \<Rightarrow> bool" where
  "within_depth 0 store node = False"
| "within_depth (Suc k) store node =
     (case obj_children (store node) of
        JsArray cs \<Rightarrow> list_all (within_depth k store) cs
      | _ \<Rightarrow> True)"

section \<open>The traversal engine: unfolding and lifting lemmas\<close>

declare processNodeWithExtractors.simps [simp del]

lemma descends_iff:
  "descends node (currentDepth ctx) opts \<longleftrightarrow>
     shouldTraverseChildren node ctx opts \<and> hasChildren node = Inr True"
  by (simp add: descends_def shouldTraverseChildren_def cong: option.case_cong)

lemma process_skip:
  "\<not> shouldProcessNode node opts \<Longrightarrow>
     processNodeWithExtractors node exs ctx opts = Inr (None, globalVars ctx, [])"
  by (simp add: processNodeWithExtractors.simps [of node])

lemma process_throw:
  "shouldProcessNode node opts \<Longrightarrow> shouldTraverseChildren node ctx opts \<Longrightarrow>
     hasChildren node = Inl e \<Longrightarrow> processNodeWithExtractors node exs ctx opts = Inl e"
  by (simp add: processNodeWithExtractors.simps [of node] Let_def)

lemma process_leaf:
  "shouldProcessNode node opts \<Longrightarrow> \<not> descends node (currentDepth ctx) opts \<Longrightarrow>
   \<not> (shouldTraverseChildren node ctx opts \<and> isl (hasChildren node)) \<Longrightarrow>
     processNodeWithExtractors node exs ctx opts =
       Inr (Some (fst (applyExtractors exs node (baseResult node) ctx)),
            snd (applyExtractors exs node (baseResult node) ctx),
            map (\<lambda>e. node) exs)"
  by (cases "hasChildren node")
     (auto simp: processNodeWithExtractors.simps [of node] Let_def descends_iff)

lemma process_inner:
  "shouldProcessNode node opts \<Longrightarrow> descends node (currentDepth ctx) opts \<Longrightarrow>
     processNodeWithExtractors node exs ctx opts =
       (case childrenToProcess node opts of
          Inl e \<Rightarrow> Inl e
        | Inr toProcess \<Rightarrow>
           (case mapProcess (kept node opts) exs
                   (ctx\<lparr>globalVars := snd (applyExtractors exs node (baseResult node) ctx),
                        currentDepth := currentDepth ctx + 1, parent := Some node\<rparr>) opts of
              Inl e \<Rightarrow> Inl e
            | Inr (mapped, gv', calls') \<Rightarrow>
                Inr (Some (withChildren (fst (applyExtractors exs node (baseResult node) ctx))
                             (filterNonNull mapped)),
                     gv', map (\<lambda>e. node) exs @ calls')))"
  by (auto simp: processNodeWithExtractors.simps [of node] Let_def descends_iff kept_def
        withChildren_def split: sum.splits)

lemma process_cases:
  assumes "processNodeWithExtractors node exs ctx opts = Inr (r, gv, calls)"
  obtains
    (skip) "\<not> shouldProcessNode node opts" "r = None" "gv = globalVars ctx" "calls = []"
  | (leaf) "shouldProcessNode node opts" "\<not> descends node (currentDepth ctx) opts"
      "r = Some (fst (applyExtractors exs node (baseResult node) ctx))"
      "gv = snd (applyExtractors exs node (baseResult node) ctx)"
      "calls = map (\<lambda>e. node) exs"
  | (inner) toProcess mapped calls' where
      "shouldProcessNode node opts" "descends node (currentDepth ctx) opts"
      "childrenToProcess node opts = Inr toProcess"
      "mapProcess (kept node opts) exs
         (ctx\<lparr>globalVars := snd (applyExtractors exs node (baseResult node) ctx),
              currentDepth := currentDepth ctx + 1, parent := Some node\<rparr>) opts
         = Inr (mapped, gv, calls')"
      "r = Some (withChildren (fst (applyExtractors exs node (baseResult node) ctx))
                   (filterNonNull mapped))"
      "calls = map (\<lambda>e. node) exs @ calls'"
proof (cases "shouldProcessNode node opts")
  case False
  with assms skip show ?thesis by (simp add: process_skip)
next
  case sp: True
  show ?thesis
  proof (cases "descends node (currentDepth ctx) opts")
    case False
    have "\<not> (shouldTraverseChildren node ctx opts \<and> isl (hasChildren node))"
    proof
      assume t: "shouldTraverseChildren node ctx opts \<and> isl (hasChildren node)"
      then obtain e where "hasChildren node = Inl e" by (cases "hasChildren node") auto
      with t sp assms show False by (simp add: process_throw)
    qed
    with assms sp False leaf show ?thesis by (simp add: process_leaf)
  next
    case True
    with assms sp inner show ?thesis
      by (auto simp: process_inner split: sum.splits)
  qed
qed

lemma mapProcess_lift:
  assumes "mapProcess ns exs ctx opts = Inr (rs, gv, calls)"
    and "\<And>n g r gv' calls'. n \<in> set ns \<Longrightarrow>
           processNodeWithExtractors n exs (ctx\<lparr>globalVars := g\<rparr>) opts = Inr (r, gv', calls')
           \<Longrightarrow> R n r \<and> set calls' \<subseteq> S n"
  shows "list_all2 R ns rs \<and> set calls \<subseteq> (\<Union>n \<in> set ns. S n)"
  using assms
proof (induction ns arbitrary: ctx rs gv calls)
  case Nil
  then show ?case by simp
next
  case (Cons n ns)
  from Cons.prems(1) obtain r g1 c1 rs' c2 where
    p: "processNodeWithExtractors n exs ctx opts = Inr (r, g1, c1)" and
    m: "mapProcess ns exs (ctx\<lparr>globalVars := g1\<rparr>) opts = Inr (rs', gv, c2)" and
    e: "rs = r # rs'" "calls = c1 @ c2"
    by (auto split: sum.splits)
  have "processNodeWithExtractors n exs (ctx\<lparr>globalVars := globalVars ctx\<rparr>) opts = Inr (r, g1, c1)"
    using p by simp
  then have h: "R n r \<and> set c1 \<subseteq> S n"
    by (rule Cons.prems(2) [rotated]) simp
  have "list_all2 R ns rs' \<and> set c2 \<subseteq> (\<Union>n \<in> set ns. S n)"
  proof (rule Cons.IH [OF m])
    fix k g r' gv' calls'
    assume "k \<in> set ns"
      and "processNodeWithExtractors k exs (ctx\<lparr>globalVars := g1\<rparr>\<lparr>globalVars := g\<rparr>) opts
             = Inr (r', gv', calls')"
    then show "R k r' \<and> set calls' \<subseteq> S k"
      using Cons.prems(2) [of k g r' gv' calls'] by simp
  qed
  with h e show ?case by auto
qed

lemma mapProcess_total:
  assumes "\<And>n g. n \<in> set ns \<Longrightarrow>
             \<exists>res. processNodeWithExtractors n exs (ctx\<lparr>globalVars := g\<rparr>) opts = Inr res"
  shows "\<exists>res. mapProcess ns exs ctx opts = Inr res"
  using assms
proof (induction ns arbitrary: ctx)
  case Nil
  then show ?case by simp
next
  case (Cons n ns)
  from Cons.prems [of n "globalVars ctx"] obtain r g1 c1 where
    p: "processNodeWithExtractors n exs ctx opts = Inr (r, g1, c1)"
    by (cases "processNodeWithExtractors n exs ctx opts") auto
  have "\<exists>res. mapProcess ns exs (ctx\<lparr>globalVars := g1\<rparr>) opts = Inr res"
  proof (rule Cons.IH)
    fix k g
    assume "k \<in> set ns"
    then show "\<exists>res. processNodeWithExtractors k exs (ctx\<lparr>globalVars := g1\<rparr>\<lparr>globalVars := g\<rparr>) opts = Inr res"
      using Cons.prems [of k g] by simp
  qed
  with p show ?case by (auto split: sum.splits)
qed

lemma extract_cases:
  assumes "extractFromDesign roots exs opts gv = Inr out"
  obtains mapped where
    "mapProcess (filter (\<lambda>node. shouldProcessNode node opts) roots) exs
       \<lparr>globalVars = gv, currentDepth = 0, options = opts, parent = None\<rparr> opts
       = Inr (mapped, resultVars out, invocations out)"
    "nodes out = filterNonNull mapped"
  using assms by (auto simp: extractFromDesign_def Let_def split: sum.splits)

lemma childrenToProcess_subset:
  "childrenToProcess node opts = Inr cs \<Longrightarrow> set cs \<subseteq> set (elems (children node))"
  by (cases "children node")
     (auto simp: childrenToProcess_def asArray_def elems_def split: if_splits sum.splits)

lemma kept_subset: "set (kept node opts) \<subseteq> set (elems (children node))"
  using childrenToProcess_subset [of node opts]
  by (cases "childrenToProcess node opts") (auto simp: kept_def)

lemma member_size_le: "k \<in> set ks \<Longrightarrow> f k \<le> size_list f ks"
  by (induction ks) auto

lemma child_size: "k \<in> set (elems (children node)) \<Longrightarrow> size k < size node"
  using member_size_le [of k "elems (children node)" size]
  by (cases node; cases "children node") (auto simp: elems_def)

lemma kept_size: "k \<in> set (kept node opts) \<Longrightarrow> size k < size node"
  using kept_subset [of node opts] child_size [of k node] by blast

lemma applyExtractors_base:
  "s_id (fst (applyExtractors exs node r ctx)) = s_id r \<and>
   s_name (fst (applyExtractors exs node r ctx)) = s_name r \<and>
   s_type (fst (applyExtractors exs node r ctx)) = s_type r \<and>
   s_children (fst (applyExtractors exs node r ctx)) = s_children r"
  by (induction exs arbitrary: r ctx) (auto split: prod.splits)

lemma output_nodes_leaf: "s_children x = None \<Longrightarrow> output_nodes x = [x]"
  by (cases x) simp

lemma output_nodes_withChildren:
  "s_children a = None \<Longrightarrow>
     set (output_nodes (withChildren a cs)) =
       insert (withChildren a cs) (\<Union>c \<in> set cs. set (output_nodes c))"
  by (cases a) (auto simp: withChildren_def)

lemma s_children_withChildren:
  "s_children a = None \<Longrightarrow> s_children (withChildren a cs) = (if cs = [] then None else Some cs)"
  by (simp add: withChildren_def)

lemma set_filterNonNull: "set (filterNonNull rs) = {x. Some x \<in> set rs}"
  by (induction rs rule: filterNonNull.induct) auto

lemma list_all2_setD2: "list_all2 R xs ys \<Longrightarrow> y \<in> set ys \<Longrightarrow> \<exists>x \<in> set xs. R x y"
  by (induction rule: list_all2_induct) auto

section \<open>Override targets\<close>

lemma js_split_unfold:
  "js_split sep s =
     takeWhile (\<lambda>c. c \<noteq> sep) s #
       (if sep \<in> set s then js_split sep (tl (dropWhile (\<lambda>c. c \<noteq> sep) s)) else [])"
  by (induction s) auto

lemma js_split_second:
  "sep \<in> set s \<Longrightarrow>
     js_index (js_split sep s) (Suc 0) =
       Some (takeWhile (\<lambda>c. c \<noteq> sep) (tl (dropWhile (\<lambda>c. c \<noteq> sep) s)))"
proof -
  assume m: "sep \<in> set s"
  let ?rest = "tl (dropWhile (\<lambda>c. c \<noteq> sep) s)"
  have "js_split sep s = takeWhile (\<lambda>c. c \<noteq> sep) s # js_split sep ?rest"
    using m js_split_unfold [of sep s] by simp
  moreover have "js_split sep ?rest = takeWhile (\<lambda>c. c \<noteq> sep) ?rest # tl (js_split sep ?rest)"
    using js_split_unfold [of sep ?rest] by simp
  ultimately have "js_split sep s =
      takeWhile (\<lambda>c. c \<noteq> sep) s # takeWhile (\<lambda>c. c \<noteq> sep) ?rest # tl (js_split sep ?rest)"
    by simp
  then show ?thesis by (simp del: js_split.simps)
qed

text \<open>
  Claim C4. The target of an override is computed from its id string: when the id contains
  the separator \<open>;\<close> it is the second field of the split on \<open>;\<close>, that is the text between
  the first separator and the next one (or the end of the string); otherwise it is the id
  unchanged.
\<close>

theorem overrideTarget_second_field:
  "overrideTarget (Override (Some s)) =
     Inr (Some (if CHR '';'' \<in> set s
                then takeWhile (\<lambda>c. c \<noteq> CHR '';'') (tl (dropWhile (\<lambda>c. c \<noteq> CHR '';'') s))
                else s))"
  by (simp add: overrideTarget_def js_split_second)

section \<open>No empty children array\<close>

lemma process_no_empty:
  "processNodeWithExtractors node exs ctx opts = Inr (r, gv, calls) \<Longrightarrow> r = Some x \<Longrightarrow>
     n \<in> set (output_nodes x) \<Longrightarrow> s_children n \<noteq> Some []"
proof (induction "size node" arbitrary: node ctx r gv calls x n rule: less_induct)
  case less
  from less.prems(1) show ?case
  proof (cases rule: process_cases)
    case skip
    with less.prems show ?thesis by simp
  next
    case leaf
    with less.prems show ?thesis
      by (auto simp: output_nodes_leaf applyExtractors_base baseResult_def)
  next
    case (inner toProcess mapped calls')
    let ?R = "\<lambda>k r. \<forall>y m. r = Some y \<longrightarrow> m \<in> set (output_nodes y) \<longrightarrow> s_children m \<noteq> Some []"
    have "list_all2 ?R (kept node opts) mapped \<and> set calls' \<subseteq> (\<Union>k \<in> set (kept node opts). UNIV)"
    proof (rule mapProcess_lift [OF inner(4)], intro conjI allI impI)
      fix k g r' gv' calls'' y m
      assume "k \<in> set (kept node opts)"
        and "processNodeWithExtractors k exs
               (ctx\<lparr>globalVars := snd (applyExtractors exs node (baseResult node) ctx),
                    currentDepth := currentDepth ctx + 1, parent := Some node,
                    globalVars := g\<rparr>) opts = Inr (r', gv', calls'')"
        and "r' = Some y" and "m \<in> set (output_nodes y)"
      then show "s_children m \<noteq> Some []"
        using less.hyps kept_size by blast
    qed simp
    then have all: "\<And>y m. y \<in> set (filterNonNull mapped) \<Longrightarrow> m \<in> set (output_nodes y)
                      \<Longrightarrow> s_children m \<noteq> Some []"
      by (auto simp: set_filterNonNull dest!: list_all2_setD2)
    have a: "s_children (fst (applyExtractors exs node (baseResult node) ctx)) = None"
      by (simp add: applyExtractors_base baseResult_def)
    from less.prems inner(5) have
      "n \<in> set (output_nodes (withChildren (fst (applyExtractors exs node (baseResult node) ctx))
                   (filterNonNull mapped)))"
      by simp
    then show ?thesis
      using all
      by (auto simp: output_nodes_withChildren [OF a] s_children_withChildren [OF a]
               split: if_splits)
  qed
qed

text \<open>
  Claim C6. No node of the output, at any depth, has an empty \<open>children\<close> array: a node
  with no retained child has no \<open>children\<close> field.
\<close>

theorem extract_no_empty_children:
  "extractFromDesign roots exs opts gv = Inr out \<Longrightarrow> x \<in> set (nodes out) \<Longrightarrow>
     n \<in> set (output_nodes x) \<Longrightarrow> s_children n \<noteq> Some []"
proof -
  assume a: "extractFromDesign roots exs opts gv = Inr out" and x: "x \<in> set (nodes out)"
    and n: "n \<in> set (output_nodes x)"
  from a obtain mapped where
    m: "mapProcess (filter (\<lambda>node. shouldProcessNode node opts) roots) exs
       \<lparr>globalVars = gv, currentDepth = 0, options = opts, parent = None\<rparr> opts
       = Inr (mapped, resultVars out, invocations out)"
    and e: "nodes out = filterNonNull mapped"
    by (rule extract_cases)
  let ?R = "\<lambda>(k::RawNode) r. \<forall>y m. r = Some y \<longrightarrow> m \<in> set (output_nodes y) \<longrightarrow> s_children m \<noteq> Some []"
  have "list_all2 ?R (filter (\<lambda>node. shouldProcessNode node opts) roots) mapped \<and>
        set (invocations out) \<subseteq> (\<Union>k \<in> set (filter (\<lambda>node. shouldProcessNode node opts) roots). UNIV)"
    by (rule mapProcess_lift [OF m]) (auto dest: process_no_empty)
  with x e n show ?thesis
    by (auto simp: set_filterNonNull dest!: list_all2_setD2)
qed

theorem extract_no_empty_children_witness:
  "extractFromDesign
     [RawNode ''0:1'' ''Page'' ''FRAME'' None []
        (JsArray [RawNode ''0:2'' ''Hidden'' ''TEXT'' (Some False) [] Absent Absent]) Absent] []
     \<lparr>maxDepth = None, nodeFilter = None, includeFullInstanceData = False\<rparr> \<lparr>styles = []\<rparr>
     = Inr \<lparr>nodes = [SimplifiedNode ''0:1'' ''Page'' ''FRAME'' [] None],
            resultVars = \<lparr>styles = []\<rparr>, invocations = []\<rparr>
   \<and> s_children (SimplifiedNode ''0:1'' ''Page'' ''FRAME'' [] None) \<noteq> Some []"
proof -
  have h: "extractFromDesign
     [RawNode ''0:1'' ''Page'' ''FRAME'' None []
        (JsArray [RawNode ''0:2'' ''Hidden'' ''TEXT'' (Some False) [] Absent Absent]) Absent] []
     \<lparr>maxDepth = None, nodeFilter = None, includeFullInstanceData = False\<rparr> \<lparr>styles = []\<rparr>
     = Inr \<lparr>nodes = [SimplifiedNode ''0:1'' ''Page'' ''FRAME'' [] None],
            resultVars = \<lparr>styles = []\<rparr>, invocations = []\<rparr>"
    by (simp add: extractFromDesign_def processNodeWithExtractors.simps shouldProcessNode_def
        isVisible_def shouldTraverseChildren_def hasValue_def childrenToProcess_def
        hasChildren_def lengthPositive_def asArray_def baseResult_def)
  have "s_children (SimplifiedNode ''0:1'' ''Page'' ''FRAME'' [] None) \<noteq> Some []"
    using extract_no_empty_children [OF h,
        of "SimplifiedNode ''0:1'' ''Page'' ''FRAME'' [] None"
           "SimplifiedNode ''0:1'' ''Page'' ''FRAME'' [] None"]
    by simp
  with h show ?thesis by simp
qed

section \<open>Failure of the pass\<close>

lemma mapOverrides_total:
  "list_all (\<lambda>override. override_id override \<noteq> None) os \<Longrightarrow> \<exists>ts. mapOverrides os = Inr ts"
  by (induction os) (auto simp: overrideTarget_def split: option.splits)

lemma well_formed_hasChildren: "well_formed node \<Longrightarrow> \<not> isl (hasChildren node)"
  by (cases node; cases "children node")
     (auto simp: hasChildren_def hasValue_def lengthPositive_def)

lemma childrenToProcess_total:
  assumes "well_formed node" and "descends node d opts"
  shows "\<exists>cs. childrenToProcess node opts = Inr cs"
proof -
  from assms obtain ks where ks: "children node = JsArray ks"
    by (cases node; cases "children node")
       (auto simp: descends_def hasChildren_def hasValue_def lengthPositive_def)
  show ?thesis
  proof (cases "node_type node = ''INSTANCE'' \<and> \<not> includeFullInstanceData opts")
    case False
    with ks show ?thesis by (auto simp: childrenToProcess_def asArray_def)
  next
    case True
    with assms(2) obtain os where os: "overrides node = JsArray os"
      by (cases "overrides node")
         (auto simp: descends_def shouldTraverseChildren_def isArray_def split: if_splits)
    with assms(1) True have "list_all (\<lambda>override. override_id override \<noteq> None) os"
      by (cases node) auto
    then obtain ts where "mapOverrides os = Inr ts"
      using mapOverrides_total by blast
    with ks os show ?thesis
      by (auto simp: childrenToProcess_def asArray_def overrideNodeIds_def)
  qed
qed

lemma well_formed_child:
  "well_formed node \<Longrightarrow> k \<in> set (elems (children node)) \<Longrightarrow> well_formed k"
  by (cases node; cases "children node") (auto simp: list_all_iff elems_def)

lemma process_total:
  "well_formed node \<Longrightarrow> \<exists>res. processNodeWithExtractors node exs ctx opts = Inr res"
proof (induction "size node" arbitrary: node ctx rule: less_induct)
  case less
  show ?case
  proof (cases "shouldProcessNode node opts")
    case False
    then show ?thesis by (simp add: process_skip)
  next
    case sp: True
    show ?thesis
    proof (cases "descends node (currentDepth ctx) opts")
      case False
      with sp well_formed_hasChildren [OF less.prems] show ?thesis
        by (simp add: process_leaf)
    next
      case d: True
      obtain cs where cs: "childrenToProcess node opts = Inr cs"
        using childrenToProcess_total [OF less.prems d] by blast
      let ?c = "ctx\<lparr>globalVars := snd (applyExtractors exs node (baseResult node) ctx),
                    currentDepth := currentDepth ctx + 1, parent := Some node\<rparr>"
      have "\<exists>res. mapProcess (kept node opts) exs ?c opts = Inr res"
      proof (rule mapProcess_total)
        fix k g
        assume k: "k \<in> set (kept node opts)"
        then have "k \<in> set (elems (children node))" using kept_subset by blast
        then have "well_formed k"
          using well_formed_child [OF less.prems] by blast
        then show "\<exists>res. processNodeWithExtractors k exs (?c\<lparr>globalVars := g\<rparr>) opts = Inr res"
          using less.hyps [OF kept_size [OF k]] by blast
      qed
      then show ?thesis
        using sp d cs by (auto simp: process_inner)
    qed
  qed
qed

text \<open>
  Claim C7, as stated, fails: an INSTANCE node with an override entry that has no id string
  makes the whole pass throw a TypeError, with an empty extractor list.
\<close>

theorem extract_throws_on_override_without_id:
  "extractFromDesign
     [RawNode ''1:1'' ''Button'' ''INSTANCE'' None []
        (JsArray [RawNode ''1:2'' ''Label'' ''TEXT'' None [] Absent Absent])
        (JsArray [Override None])] []
     \<lparr>maxDepth = None, nodeFilter = None, includeFullInstanceData = False\<rparr>
     \<lparr>styles = []\<rparr> = Inl TypeError"
  by (simp add: extractFromDesign_def processNodeWithExtractors.simps shouldProcessNode_def
        isVisible_def shouldTraverseChildren_def hasValue_def isArray_def elems_def
        hasChildren_def lengthPositive_def childrenToProcess_def overrideNodeIds_def
        overrideTarget_def baseResult_def)

text \<open>
  So does a \<open>children\<close> field that is present and is not an array: a null one at line 78, a
  non-empty string at the \<open>filter\<close> of line 98.
\<close>

lemma extract_throws_on_null_children:
  "extractFromDesign
     [RawNode ''0:1'' ''Page'' ''FRAME'' None [] JsNull Absent] []
     \<lparr>maxDepth = None, nodeFilter = None, includeFullInstanceData = False\<rparr>
     \<lparr>styles = []\<rparr> = Inl TypeError"
  by (simp add: extractFromDesign_def processNodeWithExtractors.simps shouldProcessNode_def
        isVisible_def shouldTraverseChildren_def hasValue_def hasChildren_def
        lengthPositive_def baseResult_def)

lemma extract_throws_on_string_children:
  "extractFromDesign
     [RawNode ''0:1'' ''Page'' ''FRAME'' None [] (NotArray True) Absent] []
     \<lparr>maxDepth = None, nodeFilter = None, includeFullInstanceData = False\<rparr>
     \<lparr>styles = []\<rparr> = Inl TypeError"
  by (simp add: extractFromDesign_def processNodeWithExtractors.simps shouldProcessNode_def
        isVisible_def shouldTraverseChildren_def hasValue_def hasChildren_def
        lengthPositive_def childrenToProcess_def asArray_def baseResult_def)

text \<open>
  Claim C7, amended. When, in the whole input, every \<open>children\<close> field that is present is an
  array of nodes and every override entry of every INSTANCE node has an id string, the pass
  returns a result, for every extractor list and all options.
\<close>

theorem extract_returns_on_well_formed:
  "list_all well_formed roots \<Longrightarrow> \<exists>out. extractFromDesign roots exs opts gv = Inr out"
proof -
  assume a: "list_all well_formed roots"
  have "\<exists>res. mapProcess (filter (\<lambda>node. shouldProcessNode node opts) roots) exs
           \<lparr>globalVars = gv, currentDepth = 0, options = opts, parent = None\<rparr> opts = Inr res"
    using a by (intro mapProcess_total process_total) (auto simp: list_all_iff)
  then show ?thesis
    by (auto simp: extractFromDesign_def)
qed

theorem extract_returns_witness:
  "list_all well_formed
     [RawNode ''1:1'' ''Button'' ''INSTANCE'' None []
        (JsArray [RawNode ''1:2'' ''Label'' ''TEXT'' None [] Absent Absent])
        (JsArray [Override (Some ''I1:1;1:2'')])]
   \<and> (\<exists>out. extractFromDesign
        [RawNode ''1:1'' ''Button'' ''INSTANCE'' None []
           (JsArray [RawNode ''1:2'' ''Label'' ''TEXT'' None [] Absent Absent])
           (JsArray [Override (Some ''I1:1;1:2'')])] []
        \<lparr>maxDepth = None, nodeFilter = None, includeFullInstanceData = False\<rparr>
        \<lparr>styles = []\<rparr> = Inr out)"
  using extract_returns_on_well_formed
    [of "[RawNode ''1:1'' ''Button'' ''INSTANCE'' None []
           (JsArray [RawNode ''1:2'' ''Label'' ''TEXT'' None [] Absent Absent])
           (JsArray [Override (Some ''I1:1;1:2'')])]" "[]"
        "\<lparr>maxDepth = None, nodeFilter = None, includeFullInstanceData = False\<rparr>"
        "\<lparr>styles = []\<rparr>"]
  by simp

section \<open>Visibility\<close>

lemma mset_concat_map_add:
  "(\<And>k. k \<in> set ks \<Longrightarrow> mset (f k) = mset (g k) + mset (h k)) \<Longrightarrow>
     mset (concat (map f ks)) = mset (concat (map g ks)) + mset (concat (map h ks))"
  by (induction ks) auto

lemma subtree_split:
  "mset (subtree_nodes node) = mset (visible_nodes node) + mset (hidden_nodes node)"
proof (induction node)
  case (RawNode i n t v pl cs ov)
  show ?case
  proof (cases cs)
    case (JsArray ks)
    have "mset (concat (map subtree_nodes ks)) =
            mset (concat (map visible_nodes ks)) + mset (concat (map hidden_nodes ks))"
      using RawNode JsArray by (intro mset_concat_map_add) auto
    with JsArray show ?thesis by simp
  qed simp_all
qed

lemma forest_split:
  "mset (concat (map subtree_nodes roots)) =
     mset (concat (map visible_nodes roots)) + mset (concat (map hidden_nodes roots))"
  by (intro mset_concat_map_add subtree_split)

lemma hidden_visible_ids:
  assumes "distinct (map node_id (concat (map subtree_nodes roots)))"
    and "h \<in> set (concat (map hidden_nodes roots))"
    and "v \<in> set (concat (map visible_nodes roots))"
  shows "node_id h \<noteq> node_id v"
proof -
  have "mset (map node_id (concat (map subtree_nodes roots))) =
          mset (map node_id (concat (map visible_nodes roots) @ concat (map hidden_nodes roots)))"
    using forest_split [of roots] by (metis mset_append mset_map)
  then have "distinct (map node_id (concat (map visible_nodes roots) @ concat (map hidden_nodes roots)))"
    using assms(1) by (metis mset_eq_imp_distinct_iff)
  then show ?thesis
    using assms(2,3) by (auto simp del: set_concat)
qed

lemma visible_nodes_self: "isVisible node \<Longrightarrow> node \<in> set (visible_nodes node)"
  by (cases node) (simp add: isVisible_def)

lemma visible_nodes_child:
  "isVisible node \<Longrightarrow> k \<in> set (elems (children node))
     \<Longrightarrow> set (visible_nodes k) \<subseteq> set (visible_nodes node)"
  by (cases node; cases "children node") (auto simp: isVisible_def elems_def)

lemma shouldProcessNode_visible: "shouldProcessNode node opts \<Longrightarrow> isVisible node"
  by (simp add: shouldProcessNode_def split: if_splits)

lemma process_visible:
  "processNodeWithExtractors node exs ctx opts = Inr (r, gv, calls) \<Longrightarrow>
     (\<forall>x. r = Some x \<longrightarrow> s_id ` set (output_nodes x) \<subseteq> node_id ` set (visible_nodes node))
     \<and> set calls \<subseteq> set (visible_nodes node)"
proof (induction "size node" arbitrary: node ctx r gv calls rule: less_induct)
  case less
  from less.prems show ?case
  proof (cases rule: process_cases)
    case skip
    then show ?thesis by simp
  next
    case leaf
    then show ?thesis
      using visible_nodes_self [OF shouldProcessNode_visible [OF leaf(1)]]
      by (auto simp: output_nodes_leaf applyExtractors_base baseResult_def)
  next
    case (inner toProcess mapped calls')
    have vis: "isVisible node" using inner(1) by (rule shouldProcessNode_visible)
    let ?R = "\<lambda>k r. \<forall>y. r = Some y \<longrightarrow>
                s_id ` set (output_nodes y) \<subseteq> node_id ` set (visible_nodes k)"
    have lift: "list_all2 ?R (kept node opts) mapped \<and>
          set calls' \<subseteq> (\<Union>k \<in> set (kept node opts). set (visible_nodes k))"
      by (rule mapProcess_lift [OF inner(4)]) (use less.hyps kept_size in blast)
    have sub: "\<And>k. k \<in> set (kept node opts) \<Longrightarrow> set (visible_nodes k) \<subseteq> set (visible_nodes node)"
      using visible_nodes_child [OF vis] kept_subset by blast
    have a: "s_children (fst (applyExtractors exs node (baseResult node) ctx)) = None"
      by (simp add: applyExtractors_base baseResult_def)
    have ch: "\<And>y. y \<in> set (filterNonNull mapped) \<Longrightarrow>
                 s_id ` set (output_nodes y) \<subseteq> node_id ` set (visible_nodes node)"
    proof -
      fix y assume "y \<in> set (filterNonNull mapped)"
      then have "Some y \<in> set mapped" by (simp add: set_filterNonNull)
      then obtain k where "k \<in> set (kept node opts)"
        "s_id ` set (output_nodes y) \<subseteq> node_id ` set (visible_nodes k)"
        using lift by (blast dest!: list_all2_setD2)
      then show "s_id ` set (output_nodes y) \<subseteq> node_id ` set (visible_nodes node)"
        using sub by blast
    qed
    have self: "s_id (withChildren (fst (applyExtractors exs node (baseResult node) ctx))
                  (filterNonNull mapped)) = node_id node"
      by (simp add: withChildren_def applyExtractors_base baseResult_def)
    have "s_id ` set (output_nodes (withChildren (fst (applyExtractors exs node (baseResult node) ctx))
                  (filterNonNull mapped))) \<subseteq> node_id ` set (visible_nodes node)"
      unfolding output_nodes_withChildren [OF a]
      using ch self visible_nodes_self [OF vis] by auto
    moreover have "set calls' \<subseteq> set (visible_nodes node)"
      using lift sub by blast
    then have "set calls \<subseteq> set (visible_nodes node)"
      using inner(6) visible_nodes_self [OF vis] by auto
    ultimately show ?thesis using inner(5) by simp
  qed
qed

text \<open>
  Claim C1. In a tree whose nodes have distinct ids, a node that is invisible, or that lies
  below an invisible node (whatever its own visibility flag), is absent from the output of
  \<open>extractFromDesign\<close>: no output node at any depth carries its id, and no extractor is
  invoked on it. This holds for all options and every extractor list.
\<close>

theorem hidden_nodes_absent:
  assumes "extractFromDesign roots exs opts gv = Inr out"
    and "distinct (map node_id (concat (map subtree_nodes roots)))"
    and "h \<in> set (concat (map hidden_nodes roots))"
  shows "node_id h \<notin> s_id ` set (concat (map output_nodes (nodes out)))
         \<and> h \<notin> set (invocations out)"
proof -
  from assms(1) obtain mapped where
    m: "mapProcess (filter (\<lambda>node. shouldProcessNode node opts) roots) exs
       \<lparr>globalVars = gv, currentDepth = 0, options = opts, parent = None\<rparr> opts
       = Inr (mapped, resultVars out, invocations out)"
    and e: "nodes out = filterNonNull mapped"
    by (rule extract_cases)
  let ?ns = "filter (\<lambda>node. shouldProcessNode node opts) roots"
  let ?R = "\<lambda>k r. \<forall>y. r = Some y \<longrightarrow>
                s_id ` set (output_nodes y) \<subseteq> node_id ` set (visible_nodes k)"
  have lift: "list_all2 ?R ?ns mapped \<and> set (invocations out) \<subseteq> (\<Union>k \<in> set ?ns. set (visible_nodes k))"
    by (rule mapProcess_lift [OF m]) (use process_visible in blast)
  have calls: "set (invocations out) \<subseteq> set (concat (map visible_nodes roots))"
    using lift by auto
  have ids: "s_id ` set (concat (map output_nodes (nodes out)))
               \<subseteq> node_id ` set (concat (map visible_nodes roots))"
  proof
    fix i assume "i \<in> s_id ` set (concat (map output_nodes (nodes out)))"
    then obtain y where y: "Some y \<in> set mapped" "i \<in> s_id ` set (output_nodes y)"
      using e by (auto simp: set_filterNonNull)
    then obtain k where k: "k \<in> set ?ns"
      "s_id ` set (output_nodes y) \<subseteq> node_id ` set (visible_nodes k)"
      using lift by (blast dest!: list_all2_setD2)
    have "set (visible_nodes k) \<subseteq> set (concat (map visible_nodes roots))"
      using k(1) by auto
    with y k show "i \<in> node_id ` set (concat (map visible_nodes roots))" by blast
  qed
  show ?thesis
    using hidden_visible_ids [OF assms(2,3)] calls ids by blast
qed

theorem hidden_nodes_absent_witness:
  "extractFromDesign
     [RawNode ''0:1'' ''Page'' ''FRAME'' None []
        (JsArray [RawNode ''0:2'' ''Group'' ''GROUP'' (Some False) []
                 (JsArray [RawNode ''0:3'' ''Label'' ''TEXT'' (Some True) [] Absent Absent]) Absent,
               RawNode ''0:4'' ''Box'' ''RECTANGLE'' None [] Absent Absent]) Absent]
     [\<lambda>node result ctx. (s_fields result, globalVars ctx)]
     \<lparr>maxDepth = None, nodeFilter = None, includeFullInstanceData = False\<rparr> \<lparr>styles = []\<rparr>
     = Inr \<lparr>nodes = [SimplifiedNode ''0:1'' ''Page'' ''FRAME'' []
                       (Some [SimplifiedNode ''0:4'' ''Box'' ''RECTANGLE'' [] None])],
            resultVars = \<lparr>styles = []\<rparr>,
            invocations =
              [RawNode ''0:1'' ''Page'' ''FRAME'' None []
                 (JsArray [RawNode ''0:2'' ''Group'' ''GROUP'' (Some False) []
                          (JsArray [RawNode ''0:3'' ''Label'' ''TEXT'' (Some True) [] Absent Absent]) Absent,
                        RawNode ''0:4'' ''Box'' ''RECTANGLE'' None [] Absent Absent]) Absent,
               RawNode ''0:4'' ''Box'' ''RECTANGLE'' None [] Absent Absent]\<rparr>
   \<and> ''0:3'' \<notin> s_id ` set (concat (map output_nodes
         [SimplifiedNode ''0:1'' ''Page'' ''FRAME'' []
            (Some [SimplifiedNode ''0:4'' ''Box'' ''RECTANGLE'' [] None])]))"
proof -
  let ?label = "RawNode ''0:3'' ''Label'' ''TEXT'' (Some True) [] Absent Absent"
  let ?roots = "[RawNode ''0:1'' ''Page'' ''FRAME'' None []
        (JsArray [RawNode ''0:2'' ''Group'' ''GROUP'' (Some False) [] (JsArray [?label]) Absent,
               RawNode ''0:4'' ''Box'' ''RECTANGLE'' None [] Absent Absent]) Absent]"
  let ?out = "\<lparr>nodes = [SimplifiedNode ''0:1'' ''Page'' ''FRAME'' []
                       (Some [SimplifiedNode ''0:4'' ''Box'' ''RECTANGLE'' [] None])],
            resultVars = \<lparr>styles = []\<rparr>,
            invocations =
              [RawNode ''0:1'' ''Page'' ''FRAME'' None []
                 (JsArray [RawNode ''0:2'' ''Group'' ''GROUP'' (Some False) [] (JsArray [?label]) Absent,
                        RawNode ''0:4'' ''Box'' ''RECTANGLE'' None [] Absent Absent]) Absent,
               RawNode ''0:4'' ''Box'' ''RECTANGLE'' None [] Absent Absent]\<rparr>"
  have run: "extractFromDesign ?roots [\<lambda>node result ctx. (s_fields result, globalVars ctx)]
     \<lparr>maxDepth = None, nodeFilter = None, includeFullInstanceData = False\<rparr> \<lparr>styles = []\<rparr>
     = Inr ?out"
    by (simp add: extractFromDesign_def processNodeWithExtractors.simps shouldProcessNode_def
        isVisible_def shouldTraverseChildren_def hasValue_def childrenToProcess_def
        hasChildren_def lengthPositive_def asArray_def baseResult_def)
  have d: "distinct (map node_id (concat (map subtree_nodes ?roots)))" by simp
  have h: "?label \<in> set (concat (map hidden_nodes ?roots))" by simp
  from hidden_nodes_absent [OF run d h] run show ?thesis by simp
qed

section \<open>Base fields\<close>

lemma reach_Nil: "reach opts c k [] = []"
  by (induction k arbitrary: c) auto

lemma reach_append: "reach opts c k (xs @ ys) = reach opts c k xs @ reach opts c k ys"
  by (induction k arbitrary: c xs ys) auto

lemma reach_Cons: "reach opts c k (n # ns) = reach opts c k [n] @ reach opts c k ns"
  using reach_append [of opts c k "[n]" ns] by simp

lemma reach_skip: "\<not> shouldProcessNode n opts \<Longrightarrow> reach opts c k [n] = []"
  by (cases k) (simp_all add: reach_Nil)

lemma reach_leaf:
  "shouldProcessNode n opts \<Longrightarrow> \<not> descends n c opts \<Longrightarrow>
     reach opts c k [n] = (if k = 0 then [n] else [])"
  by (cases k) (simp_all add: reach_Nil)

lemma reach_inner:
  "shouldProcessNode n opts \<Longrightarrow> descends n c opts \<Longrightarrow>
     reach opts c k [n] = (case k of 0 \<Rightarrow> [n] | Suc j \<Rightarrow> reach opts (Suc c) j (kept n opts))"
  by (cases k) simp_all

lemma reach_filter:
  "reach opts c k (filter (\<lambda>node. shouldProcessNode node opts) ns) = reach opts c k ns"
  by (cases k) simp_all

lemma at_level_Suc_withChildren:
  "s_children a = None \<Longrightarrow> at_level (Suc j) (withChildren a cs) = concat (map (at_level j) cs)"
  by (simp add: withChildren_def)

lemma out_fields_extracted:
  "out_fields (withChildren (fst (applyExtractors exs node (baseResult node) ctx)) cs)
     = base_fields node"
  by (simp add: out_fields_def base_fields_def withChildren_def applyExtractors_base
        baseResult_def)

lemma levels_of_list:
  "list_all2 (\<lambda>n r. \<forall>j. map out_fields (case r of None \<Rightarrow> [] | Some y \<Rightarrow> at_level j y)
                          = map base_fields (reach opts c j [n])) ns rs \<Longrightarrow>
     map out_fields (concat (map (at_level k) (filterNonNull rs)))
       = map base_fields (reach opts c k ns)"
proof (induction rule: list_all2_induct)
  case Nil
  then show ?case by (simp add: reach_Nil)
next
  case (Cons n ns r rs)
  then show ?case
    by (cases r) (simp_all add: reach_Cons [of opts c k n ns])
qed

lemma process_levels:
  "processNodeWithExtractors node exs ctx opts = Inr (r, gv, calls) \<Longrightarrow>
     map out_fields (case r of None \<Rightarrow> [] | Some x \<Rightarrow> at_level k x)
       = map base_fields (reach opts (currentDepth ctx) k [node])"
proof (induction "size node" arbitrary: node ctx r gv calls k rule: less_induct)
  case less
  from less.prems show ?case
  proof (cases rule: process_cases)
    case skip
    then show ?thesis by (simp add: reach_skip)
  next
    case leaf
    have "s_children (fst (applyExtractors exs node (baseResult node) ctx)) = None"
      by (simp add: applyExtractors_base baseResult_def)
    then have "at_level k (fst (applyExtractors exs node (baseResult node) ctx))
                 = (if k = 0 then [fst (applyExtractors exs node (baseResult node) ctx)] else [])"
      by (cases k) simp_all
    with leaf out_fields_extracted [of exs node ctx "[]"] show ?thesis
      by (simp add: reach_leaf withChildren_def)
  next
    case (inner toProcess mapped calls')
    let ?a = "fst (applyExtractors exs node (baseResult node) ctx)"
    have a: "s_children ?a = None"
      by (simp add: applyExtractors_base baseResult_def)
    let ?R = "\<lambda>n r. \<forall>j. map out_fields (case r of None \<Rightarrow> [] | Some y \<Rightarrow> at_level j y)
                          = map base_fields (reach opts (Suc (currentDepth ctx)) j [n])"
    have "list_all2 ?R (kept node opts) mapped \<and>
          set calls' \<subseteq> (\<Union>c \<in> set (kept node opts). UNIV)"
    proof (rule mapProcess_lift [OF inner(4)], rule conjI)
      fix c g r' gv' calls''
      assume c: "c \<in> set (kept node opts)"
        and p: "processNodeWithExtractors c exs
               (ctx\<lparr>globalVars := snd (applyExtractors exs node (baseResult node) ctx),
                    currentDepth := currentDepth ctx + 1, parent := Some node,
                    globalVars := g\<rparr>) opts = Inr (r', gv', calls'')"
      show "?R c r'"
        using less.hyps [OF kept_size [OF c] p] by simp
    qed simp
    then have lv: "\<And>j. map out_fields (concat (map (at_level j) (filterNonNull mapped)))
                       = map base_fields (reach opts (Suc (currentDepth ctx)) j (kept node opts))"
      using levels_of_list by blast
    show ?thesis
    proof (cases k)
      case 0
      with inner out_fields_extracted [of exs node ctx "filterNonNull mapped"] show ?thesis
        by (simp add: reach_inner)
    next
      case (Suc j)
      with inner lv [of j] show ?thesis
        by (simp add: reach_inner at_level_Suc_withChildren [OF a] del: at_level.simps)
    qed
  qed
qed

lemma extract_levels:
  assumes "extractFromDesign roots exs opts gv = Inr out"
  shows "map out_fields (concat (map (at_level k) (nodes out)))
           = map base_fields (reach opts 0 k roots)"
proof -
  from assms obtain mapped where
    m: "mapProcess (filter (\<lambda>node. shouldProcessNode node opts) roots) exs
       \<lparr>globalVars = gv, currentDepth = 0, options = opts, parent = None\<rparr> opts
       = Inr (mapped, resultVars out, invocations out)"
    and e: "nodes out = filterNonNull mapped"
    by (rule extract_cases)
  let ?ns = "filter (\<lambda>node. shouldProcessNode node opts) roots"
  let ?R = "\<lambda>n r. \<forall>j. map out_fields (case r of None \<Rightarrow> [] | Some y \<Rightarrow> at_level j y)
                          = map base_fields (reach opts 0 j [n])"
  have "list_all2 ?R ?ns mapped \<and> set (invocations out) \<subseteq> (\<Union>c \<in> set ?ns. UNIV)"
  proof (rule mapProcess_lift [OF m], rule conjI)
    fix c g r' gv' calls''
    assume "processNodeWithExtractors c exs
               (\<lparr>globalVars = gv, currentDepth = 0, options = opts, parent = None\<rparr>
                  \<lparr>globalVars := g\<rparr>) opts = Inr (r', gv', calls'')"
    from process_levels [OF this] show "?R c r'" by simp
  qed simp
  then have "map out_fields (concat (map (at_level k) (filterNonNull mapped)))
               = map base_fields (reach opts 0 k ?ns)"
    using levels_of_list by blast
  with e show ?thesis by (simp only: reach_filter)
qed

lemma output_nodes_levels: "o' \<in> set (output_nodes x) \<Longrightarrow> \<exists>k. o' \<in> set (at_level k x)"
proof (induction "size x" arbitrary: x o' rule: less_induct)
  case less
  obtain i n t fs cs where x: "x = SimplifiedNode i n t fs cs" by (cases x)
  show ?case
  proof (cases "o' = x")
    case True
    then have "o' \<in> set (at_level 0 x)" by simp
    then show ?thesis by blast
  next
    case False
    with less.prems x obtain ks c where ks: "cs = Some ks" "c \<in> set ks" "o' \<in> set (output_nodes c)"
      by (cases cs) auto
    have "size c < size x"
      using ks x member_size_le [of c ks size] by simp
    from less.hyps [OF this ks(3)] obtain k where "o' \<in> set (at_level k c)" by blast
    with ks x have "o' \<in> set (at_level (Suc k) x)" by auto
    then show ?thesis by blast
  qed
qed

text \<open>
  Claim C5. Whatever the extractor list, every node of the output carries the id and the
  name of its input node, and its type, with VECTOR replaced by IMAGE-SVG and every other
  type unchanged: at every level of the output, the base fields of the output nodes are, in
  order, those of the input nodes the traversal reaches at that level; and every node of the
  output is at one of its levels.
\<close>

theorem output_base_fields:
  assumes "extractFromDesign roots exs opts gv = Inr out"
  shows "(\<forall>k. map out_fields (concat (map (at_level k) (nodes out)))
               = map base_fields (reach opts 0 k roots))
       \<and> (\<forall>x \<in> set (nodes out). \<forall>n \<in> set (output_nodes x). \<exists>k. n \<in> set (at_level k x))"
  using extract_levels [OF assms] output_nodes_levels by blast

theorem output_base_fields_witness:
  "extractFromDesign
     [RawNode ''0:1'' ''Page'' ''FRAME'' None []
        (JsArray [RawNode ''0:2'' ''Icon'' ''VECTOR'' None [] Absent Absent,
                  RawNode ''0:3'' ''Title'' ''TEXT'' None [] Absent Absent]) Absent] []
     \<lparr>maxDepth = None, nodeFilter = None, includeFullInstanceData = False\<rparr> \<lparr>styles = []\<rparr>
     = Inr \<lparr>nodes = [SimplifiedNode ''0:1'' ''Page'' ''FRAME'' []
                       (Some [SimplifiedNode ''0:2'' ''Icon'' ''IMAGE-SVG'' [] None,
                              SimplifiedNode ''0:3'' ''Title'' ''TEXT'' [] None])],
            resultVars = \<lparr>styles = []\<rparr>, invocations = []\<rparr>
   \<and> map out_fields
        (concat (map (at_level 1)
           [SimplifiedNode ''0:1'' ''Page'' ''FRAME'' []
              (Some [SimplifiedNode ''0:2'' ''Icon'' ''IMAGE-SVG'' [] None,
                     SimplifiedNode ''0:3'' ''Title'' ''TEXT'' [] None])]))
     = [(''0:2'', ''Icon'', ''IMAGE-SVG''), (''0:3'', ''Title'', ''TEXT'')]"
proof -
  let ?roots = "[RawNode ''0:1'' ''Page'' ''FRAME'' None []
        (JsArray [RawNode ''0:2'' ''Icon'' ''VECTOR'' None [] Absent Absent,
                  RawNode ''0:3'' ''Title'' ''TEXT'' None [] Absent Absent]) Absent]"
  let ?opts = "\<lparr>maxDepth = None, nodeFilter = None, includeFullInstanceData = False\<rparr>"
  let ?out = "\<lparr>nodes = [SimplifiedNode ''0:1'' ''Page'' ''FRAME'' []
                       (Some [SimplifiedNode ''0:2'' ''Icon'' ''IMAGE-SVG'' [] None,
                              SimplifiedNode ''0:3'' ''Title'' ''TEXT'' [] None])],
            resultVars = \<lparr>styles = []\<rparr>, invocations = []\<rparr>"
  have run: "extractFromDesign ?roots [] ?opts \<lparr>styles = []\<rparr> = Inr ?out"
    by (simp add: extractFromDesign_def processNodeWithExtractors.simps shouldProcessNode_def
        isVisible_def shouldTraverseChildren_def hasValue_def childrenToProcess_def
        hasChildren_def lengthPositive_def asArray_def baseResult_def)
  have "map out_fields (concat (map (at_level 1) (nodes ?out)))
          = map base_fields (reach ?opts 0 1 ?roots)"
    using output_base_fields [OF run] by blast
  also have "\<dots> = [(''0:2'', ''Icon'', ''IMAGE-SVG''), (''0:3'', ''Title'', ''TEXT'')]"
    by (simp add: base_fields_def descends_def kept_def shouldProcessNode_def isVisible_def
          shouldTraverseChildren_def hasValue_def childrenToProcess_def hasChildren_def
          lengthPositive_def asArray_def)
  finally show ?thesis using run by simp
qed

section \<open>Depth bound\<close>

lemma at_level_leaf: "s_children x = None \<Longrightarrow> n \<in> set (at_level k x) \<Longrightarrow> k = 0 \<and> n = x"
  by (cases k) auto

lemma at_level_withChildren:
  "s_children a = None \<Longrightarrow> n \<in> set (at_level k (withChildren a cs)) \<Longrightarrow>
     (k = 0 \<and> n = withChildren a cs) \<or> (\<exists>j c. k = Suc j \<and> c \<in> set cs \<and> n \<in> set (at_level j c))"
  by (cases k) (auto simp: withChildren_def split: if_splits)

lemma descends_depth:
  "descends node depth opts \<Longrightarrow> maxDepth opts = Some d \<Longrightarrow> real depth < d"
  by (simp add: descends_def shouldTraverseChildren_def split: if_splits)

lemma process_depth:
  "processNodeWithExtractors node exs ctx opts = Inr (Some x, gv, calls) \<Longrightarrow>
     maxDepth opts = Some d \<Longrightarrow> n \<in> set (at_level k x) \<Longrightarrow>
     (k = 0 \<or> real (currentDepth ctx + k - 1) < d)
     \<and> (d \<le> real (currentDepth ctx + k) \<longrightarrow> s_children n = None)"
proof (induction "size node" arbitrary: node ctx x gv calls n k rule: less_induct)
  case less
  from less.prems(1) show ?case
  proof (cases rule: process_cases)
    case skip
    then show ?thesis by simp
  next
    case leaf
    then have "s_children x = None"
      by (simp add: applyExtractors_base baseResult_def)
    with at_level_leaf [OF this less.prems(3)] show ?thesis by simp
  next
    case (inner toProcess mapped calls')
    let ?a = "fst (applyExtractors exs node (baseResult node) ctx)"
    let ?c = "ctx\<lparr>globalVars := snd (applyExtractors exs node (baseResult node) ctx),
                  currentDepth := currentDepth ctx + 1, parent := Some node\<rparr>"
    have a: "s_children ?a = None"
      by (simp add: applyExtractors_base baseResult_def)
    have lt: "real (currentDepth ctx) < d"
      using descends_depth [OF inner(2) less.prems(2)] .
    let ?R = "\<lambda>c r. \<forall>y m j. r = Some y \<longrightarrow> m \<in> set (at_level j y) \<longrightarrow>
                (j = 0 \<or> real (Suc (currentDepth ctx) + j - 1) < d)
                \<and> (d \<le> real (Suc (currentDepth ctx) + j) \<longrightarrow> s_children m = None)"
    have lift: "list_all2 ?R (kept node opts) mapped \<and>
                set calls' \<subseteq> (\<Union>c \<in> set (kept node opts). UNIV)"
    proof (rule mapProcess_lift [OF inner(4)], rule conjI, intro allI impI)
      fix c g r gv' calls'' y m j
      assume c: "c \<in> set (kept node opts)"
        and p: "processNodeWithExtractors c exs (?c\<lparr>globalVars := g\<rparr>) opts = Inr (r, gv', calls'')"
        and r: "r = Some y" and m: "m \<in> set (at_level j y)"
      from less.hyps [OF kept_size [OF c] p [unfolded r] less.prems(2) m]
      show "(j = 0 \<or> real (Suc (currentDepth ctx) + j - 1) < d)
              \<and> (d \<le> real (Suc (currentDepth ctx) + j) \<longrightarrow> s_children m = None)"
        by simp
    qed simp
    from less.prems(3) inner(5) have "n \<in> set (at_level k (withChildren ?a (filterNonNull mapped)))"
      by simp
    from at_level_withChildren [OF a this] show ?thesis
    proof
      assume "k = 0 \<and> n = withChildren ?a (filterNonNull mapped)"
      with lt show ?thesis by simp
    next
      assume "\<exists>j c. k = Suc j \<and> c \<in> set (filterNonNull mapped) \<and> n \<in> set (at_level j c)"
      then obtain j c where j: "k = Suc j" "Some c \<in> set mapped" "n \<in> set (at_level j c)"
        by (auto simp: set_filterNonNull)
      then have "(j = 0 \<or> real (Suc (currentDepth ctx) + j - 1) < d)
                \<and> (d \<le> real (Suc (currentDepth ctx) + j) \<longrightarrow> s_children n = None)"
        using lift by (blast dest!: list_all2_setD2)
      with j(1) lt show ?thesis by (cases j) auto
    qed
  qed
qed

lemma shouldProcessNode_maxDepth [simp]:
  "shouldProcessNode node (opts\<lparr>maxDepth := m\<rparr>) = shouldProcessNode node opts"
  by (simp add: shouldProcessNode_def)

lemma childrenToProcess_maxDepth [simp]:
  "childrenToProcess node (opts\<lparr>maxDepth := m\<rparr>) = childrenToProcess node opts"
  by (simp add: childrenToProcess_def)

lemma kept_maxDepth [simp]: "kept node (opts\<lparr>maxDepth := m\<rparr>) = kept node opts"
  by (simp add: kept_def)

lemma descends_bounded:
  "descends node depth (opts\<lparr>maxDepth := Some d\<rparr>) \<longleftrightarrow>
     real depth < d \<and> descends node depth (opts\<lparr>maxDepth := None\<rparr>)"
  by (auto simp: descends_def shouldTraverseChildren_def)

lemma below_ceiling: "c < nat \<lceil>d\<rceil> \<Longrightarrow> real c < d"
proof -
  assume "c < nat \<lceil>d\<rceil>"
  then have "int c < \<lceil>d\<rceil>" by simp
  then have "of_int (int c) < d" by (simp only: less_ceiling_iff)
  then show ?thesis by simp
qed

lemma reach_unbounded:
  "c + k \<le> nat \<lceil>d\<rceil> \<Longrightarrow>
     reach (opts\<lparr>maxDepth := Some d\<rparr>) c k ns = reach (opts\<lparr>maxDepth := None\<rparr>) c k ns"
proof (induction k arbitrary: c ns)
  case 0
  then show ?case by simp
next
  case (Suc k)
  then have "real c < d" by (intro below_ceiling) simp
  then have "\<And>node. descends node c (opts\<lparr>maxDepth := Some d\<rparr>)
                       = descends node c (opts\<lparr>maxDepth := None\<rparr>)"
    by (simp add: descends_bounded)
  moreover have "Suc c + k \<le> nat \<lceil>d\<rceil>" using Suc.prems by simp
  ultimately show ?case using Suc.IH [of "Suc c"] by (simp cong: if_cong)
qed

text \<open>
  Claim C2, as stated, fails: \<open>maxDepth\<close> is any number. With \<open>maxDepth = -1\<close> the root, at
  depth 0, is emitted all the same, and 0 exceeds -1.
\<close>

theorem negative_maxDepth_emits_root:
  "extractFromDesign
     [RawNode ''0:1'' ''Page'' ''FRAME'' None []
        (JsArray [RawNode ''0:2'' ''Title'' ''TEXT'' None [] Absent Absent]) Absent] []
     \<lparr>maxDepth = Some (- 1), nodeFilter = None, includeFullInstanceData = False\<rparr>
     \<lparr>styles = []\<rparr>
     = Inr \<lparr>nodes = [SimplifiedNode ''0:1'' ''Page'' ''FRAME'' [] None],
            resultVars = \<lparr>styles = []\<rparr>, invocations = []\<rparr>
   \<and> at_level 0 (SimplifiedNode ''0:1'' ''Page'' ''FRAME'' [] None)
       = [SimplifiedNode ''0:1'' ''Page'' ''FRAME'' [] None]
   \<and> \<not> real 0 \<le> - 1"
  by (simp add: extractFromDesign_def processNodeWithExtractors.simps shouldProcessNode_def
        isVisible_def shouldTraverseChildren_def hasValue_def childrenToProcess_def
        hasChildren_def lengthPositive_def asArray_def baseResult_def)

text \<open>
  With a fractional bound a node below it is emitted: with \<open>maxDepth = 1/2\<close>, a node at
  depth 1.
\<close>

lemma fractional_maxDepth_emits_deeper_node:
  "extractFromDesign
     [RawNode ''0:1'' ''Page'' ''FRAME'' None []
        (JsArray [RawNode ''0:2'' ''Title'' ''TEXT'' None [] Absent Absent]) Absent] []
     \<lparr>maxDepth = Some (1 / 2), nodeFilter = None, includeFullInstanceData = False\<rparr>
     \<lparr>styles = []\<rparr>
     = Inr \<lparr>nodes = [SimplifiedNode ''0:1'' ''Page'' ''FRAME'' []
                       (Some [SimplifiedNode ''0:2'' ''Title'' ''TEXT'' [] None])],
            resultVars = \<lparr>styles = []\<rparr>, invocations = []\<rparr>
   \<and> at_level 1 (SimplifiedNode ''0:1'' ''Page'' ''FRAME'' []
                    (Some [SimplifiedNode ''0:2'' ''Title'' ''TEXT'' [] None]))
       = [SimplifiedNode ''0:2'' ''Title'' ''TEXT'' [] None]
   \<and> \<not> real 1 \<le> 1 / 2"
  by (simp add: extractFromDesign_def processNodeWithExtractors.simps shouldProcessNode_def
        isVisible_def shouldTraverseChildren_def hasValue_def childrenToProcess_def
        hasChildren_def lengthPositive_def asArray_def baseResult_def)

text \<open>
  Claim C2, amended. With \<open>maxDepth = d\<close>, let \<open>b\<close> be \<open>d\<close> rounded up to an integer, and 0
  for a negative \<open>d\<close>; so \<open>b = d\<close> when \<open>d\<close> is a natural number. Every output node lies at a
  depth \<open>k \<le> b\<close> below its root (the roots are at depth 0), and an output node at depth
  \<open>b\<close> has no \<open>children\<close> field. The nodes down to the bound are still emitted: at every
  depth up to \<open>b\<close>, the output nodes are, in order, the nodes that the traversal without a
  depth bound reaches at that depth.
\<close>

theorem depth_bound:
  assumes "extractFromDesign roots exs (opts\<lparr>maxDepth := Some d\<rparr>) gv = Inr out"
  shows "(\<forall>x \<in> set (nodes out). \<forall>k. \<forall>n \<in> set (at_level k x).
            k \<le> nat \<lceil>d\<rceil> \<and> (k = nat \<lceil>d\<rceil> \<longrightarrow> s_children n = None))
       \<and> (\<forall>k \<le> nat \<lceil>d\<rceil>.
            map out_fields (concat (map (at_level k) (nodes out)))
              = map base_fields (reach (opts\<lparr>maxDepth := None\<rparr>) 0 k roots))"
proof (intro conjI ballI allI impI)
  let ?b = "opts\<lparr>maxDepth := Some d\<rparr>"
  let ?ns = "filter (\<lambda>node. shouldProcessNode node opts) roots"
  from assms obtain mapped where
    m: "mapProcess ?ns exs \<lparr>globalVars = gv, currentDepth = 0, options = ?b, parent = None\<rparr> ?b
          = Inr (mapped, resultVars out, invocations out)"
    and e: "nodes out = filterNonNull mapped"
    by (rule extract_cases [of roots exs ?b gv out]) simp
  {
    fix x k n
    assume x: "x \<in> set (nodes out)" and n: "n \<in> set (at_level k x)"
    let ?R = "\<lambda>(c::RawNode) r. \<forall>y m j. r = Some y \<longrightarrow> m \<in> set (at_level j y) \<longrightarrow>
                (j = 0 \<or> real (j - 1) < d) \<and> (d \<le> real j \<longrightarrow> s_children m = None)"
    have "list_all2 ?R ?ns mapped \<and> set (invocations out) \<subseteq> (\<Union>c \<in> set ?ns. UNIV)"
    proof (rule mapProcess_lift [OF m], rule conjI, intro allI impI)
      fix c g r gv' calls' y m j
      assume p: "processNodeWithExtractors c exs
                   (\<lparr>globalVars = gv, currentDepth = 0, options = ?b, parent = None\<rparr>
                      \<lparr>globalVars := g\<rparr>) ?b = Inr (r, gv', calls')"
        and r: "r = Some y" and mm: "m \<in> set (at_level j y)"
      from process_depth [OF p [unfolded r] _ mm, of d]
      show "(j = 0 \<or> real (j - 1) < d) \<and> (d \<le> real j \<longrightarrow> s_children m = None)" by simp
    qed simp
    with x e n have r: "(k = 0 \<or> real (k - 1) < d) \<and> (d \<le> real k \<longrightarrow> s_children n = None)"
      by (auto simp: set_filterNonNull dest!: list_all2_setD2)
    show "k \<le> nat \<lceil>d\<rceil>"
    proof (cases k)
      case 0
      then show ?thesis by simp
    next
      case (Suc j)
      with r have "real j < d" by simp
      then have "of_int (int j) < d" by simp
      then have "int j < \<lceil>d\<rceil>" by (simp only: less_ceiling_iff)
      with Suc show ?thesis by simp
    qed
    show "s_children n = None" if "k = nat \<lceil>d\<rceil>"
    proof -
      have "d \<le> real_of_int \<lceil>d\<rceil>" by (rule le_of_int_ceiling)
      also have "\<dots> \<le> real (nat \<lceil>d\<rceil>)" by simp
      finally show ?thesis using r that by simp
    qed
  }
  fix k assume "k \<le> nat \<lceil>d\<rceil>"
  then show "map out_fields (concat (map (at_level k) (nodes out)))
              = map base_fields (reach (opts\<lparr>maxDepth := None\<rparr>) 0 k roots)"
    using extract_levels [OF assms, of k] reach_unbounded [of 0 k d opts roots] by simp
qed

theorem depth_bound_witness:
  "extractFromDesign
     [RawNode ''0:1'' ''Page'' ''FRAME'' None []
        (JsArray [RawNode ''0:2'' ''Card'' ''FRAME'' None []
                    (JsArray [RawNode ''0:3'' ''Title'' ''TEXT'' None [] Absent Absent])
                    Absent]) Absent] []
     (\<lparr>maxDepth = None, nodeFilter = None, includeFullInstanceData = False\<rparr>
        \<lparr>maxDepth := Some 1\<rparr>) \<lparr>styles = []\<rparr>
     = Inr \<lparr>nodes = [SimplifiedNode ''0:1'' ''Page'' ''FRAME'' []
                       (Some [SimplifiedNode ''0:2'' ''Card'' ''FRAME'' [] None])],
            resultVars = \<lparr>styles = []\<rparr>, invocations = []\<rparr>
   \<and> nat \<lceil>1::real\<rceil> = 1
   \<and> s_children (SimplifiedNode ''0:2'' ''Card'' ''FRAME'' [] None) = None
   \<and> map out_fields
        (concat (map (at_level 1)
           [SimplifiedNode ''0:1'' ''Page'' ''FRAME'' []
              (Some [SimplifiedNode ''0:2'' ''Card'' ''FRAME'' [] None])]))
     = [(''0:2'', ''Card'', ''FRAME'')]"
proof -
  let ?roots = "[RawNode ''0:1'' ''Page'' ''FRAME'' None []
        (JsArray [RawNode ''0:2'' ''Card'' ''FRAME'' None []
                    (JsArray [RawNode ''0:3'' ''Title'' ''TEXT'' None [] Absent Absent])
                    Absent]) Absent]"
  let ?opts = "\<lparr>maxDepth = None, nodeFilter = None, includeFullInstanceData = False\<rparr>"
  let ?card = "SimplifiedNode ''0:2'' ''Card'' ''FRAME'' [] None"
  let ?page = "SimplifiedNode ''0:1'' ''Page'' ''FRAME'' [] (Some [?card])"
  let ?out = "\<lparr>nodes = [?page], resultVars = \<lparr>styles = []\<rparr>, invocations = []\<rparr>"
  have b: "extractFromDesign ?roots [] (?opts\<lparr>maxDepth := Some 1\<rparr>) \<lparr>styles = []\<rparr> = Inr ?out"
    by (simp add: extractFromDesign_def processNodeWithExtractors.simps shouldProcessNode_def
        isVisible_def shouldTraverseChildren_def hasValue_def childrenToProcess_def
        hasChildren_def lengthPositive_def asArray_def baseResult_def)
  note db = depth_bound [OF b]
  have c: "nat \<lceil>1::real\<rceil> = 1" by simp
  have "?card \<in> set (at_level 1 ?page)" by simp
  with db c have k: "s_children ?card = None" by fastforce
  have le: "(1::nat) \<le> nat \<lceil>1::real\<rceil>" by simp
  from db have "\<forall>k \<le> nat \<lceil>1::real\<rceil>.
            map out_fields (concat (map (at_level k) (nodes ?out)))
              = map base_fields (reach (?opts\<lparr>maxDepth := None\<rparr>) 0 k ?roots)"
    by (rule conjunct2)
  from this [rule_format, OF le]
  have "map out_fields (concat (map (at_level 1) (nodes ?out)))
          = map base_fields (reach (?opts\<lparr>maxDepth := None\<rparr>) 0 1 ?roots)" .
  also have "\<dots> = [(''0:2'', ''Card'', ''FRAME'')]"
    by (simp add: base_fields_def descends_def kept_def shouldProcessNode_def isVisible_def
          shouldTraverseChildren_def hasValue_def childrenToProcess_def hasChildren_def
          lengthPositive_def asArray_def)
  finally show ?thesis using b c k by simp
qed

section \<open>Instance pruning\<close>

lemma mapOverrides_set:
  "mapOverrides ovs = Inr ts \<Longrightarrow> set ts = {t. \<exists>ov \<in> set ovs. overrideTarget ov = Inr t}"
  by (induction ovs arbitrary: ts) (auto split: sum.splits)

lemma process_emits:
  "processNodeWithExtractors node exs ctx opts = Inr (r, gv, calls) \<Longrightarrow>
     shouldProcessNode node opts \<Longrightarrow> \<exists>y. r = Some y \<and> s_id y = node_id node"
  by (erule process_cases)
     (auto simp: applyExtractors_base baseResult_def withChildren_def)

lemma emitted_ids:
  "list_all2 (\<lambda>k r. \<exists>y. r = Some y \<and> s_id y = node_id k) ks rs \<Longrightarrow>
     map s_id (filterNonNull rs) = map node_id ks"
  by (induction rule: list_all2_induct) auto

text \<open>
  Claim C3, as stated, fails: an override targets the child \<open>X\<close>, but \<open>X\<close> is invisible,
  and the emitted instance has no \<open>children\<close> field.
\<close>

theorem instance_override_hidden_child:
  "extractFromDesign
     [RawNode ''1:1'' ''Button'' ''INSTANCE'' None []
        (JsArray [RawNode ''X'' ''Label'' ''TEXT'' (Some False) [] Absent Absent])
        (JsArray [Override (Some ''I1:1;X'')])] []
     \<lparr>maxDepth = None, nodeFilter = None, includeFullInstanceData = False\<rparr> \<lparr>styles = []\<rparr>
   = Inr \<lparr>nodes = [SimplifiedNode ''1:1'' ''Button'' ''INSTANCE'' [] None],
          resultVars = \<lparr>styles = []\<rparr>, invocations = []\<rparr>"
  by (simp add: extractFromDesign_def processNodeWithExtractors.simps shouldProcessNode_def
        isVisible_def shouldTraverseChildren_def hasValue_def isArray_def elems_def
        hasChildren_def lengthPositive_def childrenToProcess_def overrideNodeIds_def
        asArray_def overrideTarget_def baseResult_def)

text \<open>
  Claim C3, amended. For an emitted INSTANCE node with \<open>includeFullInstanceData\<close> false: if
  it declares no override, the emitted node has no \<open>children\<close> field; if it declares at
  least one override and the depth bound is not reached, the emitted children are, in order,
  exactly the children that pass the visibility gate and the custom filter and that are the
  target of an override or have children of their own.
\<close>

theorem instance_children:
  assumes "processNodeWithExtractors node exs ctx opts = Inr (Some r, gv, calls)"
    and "node_type node = ''INSTANCE''" and "\<not> includeFullInstanceData opts"
  shows "((\<not> isArray (overrides node) \<or> overrides node = JsArray []) \<longrightarrow> s_children r = None)
       \<and> (\<forall>ovs ks. overrides node = JsArray ovs \<and> ovs \<noteq> [] \<and> children node = JsArray ks
              \<and> (case maxDepth opts of
                    None \<Rightarrow> True
                  | Some d \<Rightarrow> real (currentDepth ctx) < d) \<longrightarrow>
            map s_id (case s_children r of None \<Rightarrow> [] | Some cs \<Rightarrow> cs)
              = map node_id
                  (filter (\<lambda>c. shouldProcessNode c opts
                             \<and> (list_ex (\<lambda>ov. overrideTarget ov = Inr (Some (node_id c))) ovs
                                \<or> (hasValue (children c) \<and> isArray (children c)
                                    \<and> length (elems (children c)) > 0)))
                     ks))"
proof (intro conjI allI impI)
  let ?a = "fst (applyExtractors exs node (baseResult node) ctx)"
  have a: "s_children ?a = None"
    by (simp add: applyExtractors_base baseResult_def)
  {
    assume "\<not> isArray (overrides node) \<or> overrides node = JsArray []"
    then have "\<not> descends node (currentDepth ctx) opts"
      using assms(2,3)
      by (auto simp: descends_def shouldTraverseChildren_def hasValue_def elems_def)
    with assms(1) show "s_children r = None"
      by (cases rule: process_cases) (simp_all add: a)
  }
  fix ovs ks
  assume h: "overrides node = JsArray ovs \<and> ovs \<noteq> [] \<and> children node = JsArray ks
              \<and> (case maxDepth opts of
                    None \<Rightarrow> True
                  | Some d \<Rightarrow> real (currentDepth ctx) < d)"
  let ?keep = "\<lambda>c. shouldProcessNode c opts
                 \<and> (list_ex (\<lambda>ov. overrideTarget ov = Inr (Some (node_id c))) ovs
                    \<or> (hasValue (children c) \<and> isArray (children c)
                        \<and> length (elems (children c)) > 0))"
  from assms(1) show "map s_id (case s_children r of None \<Rightarrow> [] | Some cs \<Rightarrow> cs)
                        = map node_id (filter ?keep ks)"
  proof (cases rule: process_cases)
    case leaf
    then have "ks = []"
      using h assms(2,3)
      by (auto simp: descends_def shouldTraverseChildren_def hasValue_def isArray_def
            elems_def hasChildren_def lengthPositive_def split: option.splits)
    with leaf a show ?thesis by simp
  next
    case (inner toProcess mapped calls')
    from inner(3) h assms(2,3) obtain ts where
      ts: "mapOverrides ovs = Inr ts"
      and tp: "toProcess = filter (\<lambda>c. Some (node_id c) \<in> set ts
                  \<or> (hasValue (children c) \<and> isArray (children c)
                      \<and> length (elems (children c)) > 0)) ks"
      by (auto simp: childrenToProcess_def hasValue_def overrideNodeIds_def asArray_def
               split: sum.splits)
    have k: "kept node opts = filter ?keep ks"
      using inner(3) tp mapOverrides_set [OF ts]
      by (auto simp: kept_def list_ex_iff intro!: filter_cong)
    let ?R = "\<lambda>k r. \<exists>y. r = Some y \<and> s_id y = node_id k"
    have "list_all2 ?R (kept node opts) mapped \<and>
          set calls' \<subseteq> (\<Union>c \<in> set (kept node opts). UNIV)"
    proof (rule mapProcess_lift [OF inner(4)], rule conjI)
      fix c g r' gv' calls''
      assume "c \<in> set (kept node opts)"
        and "processNodeWithExtractors c exs
               (ctx\<lparr>globalVars := snd (applyExtractors exs node (baseResult node) ctx),
                    currentDepth := currentDepth ctx + 1, parent := Some node,
                    globalVars := g\<rparr>) opts = Inr (r', gv', calls'')"
      then show "\<exists>y. r' = Some y \<and> s_id y = node_id c"
        by (intro process_emits) (auto simp: kept_def)
    qed simp
    then have "map s_id (filterNonNull mapped) = map node_id (kept node opts)"
      by (intro emitted_ids) simp
    with inner(5) k show ?thesis
      by (cases "filterNonNull mapped") (simp_all add: s_children_withChildren [OF a])
  qed simp
qed

theorem instance_children_witness:
  "processNodeWithExtractors
     (RawNode ''1:1'' ''Button'' ''INSTANCE'' None []
        (JsArray [RawNode ''X'' ''Label'' ''TEXT'' None [] Absent Absent,
               RawNode ''1:3'' ''Icon'' ''VECTOR'' None [] Absent Absent,
               RawNode ''1:4'' ''Slot'' ''FRAME'' None []
                 (JsArray [RawNode ''1:5'' ''Inner'' ''TEXT'' None [] Absent Absent]) Absent])
        (JsArray [Override (Some ''I1:1;X'')])) []
     \<lparr>globalVars = \<lparr>styles = []\<rparr>, currentDepth = 0,
      options = \<lparr>maxDepth = None, nodeFilter = None, includeFullInstanceData = False\<rparr>,
      parent = None\<rparr>
     \<lparr>maxDepth = None, nodeFilter = None, includeFullInstanceData = False\<rparr>
   = Inr (Some (SimplifiedNode ''1:1'' ''Button'' ''INSTANCE'' []
                  (Some [SimplifiedNode ''X'' ''Label'' ''TEXT'' [] None,
                         SimplifiedNode ''1:4'' ''Slot'' ''FRAME'' []
                           (Some [SimplifiedNode ''1:5'' ''Inner'' ''TEXT'' [] None])])),
          \<lparr>styles = []\<rparr>, [])
   \<and> map s_id [SimplifiedNode ''X'' ''Label'' ''TEXT'' [] None,
                SimplifiedNode ''1:4'' ''Slot'' ''FRAME'' []
                  (Some [SimplifiedNode ''1:5'' ''Inner'' ''TEXT'' [] None])]
       = [''X'', ''1:4'']"
proof -
  let ?ks = "[RawNode ''X'' ''Label'' ''TEXT'' None [] Absent Absent,
               RawNode ''1:3'' ''Icon'' ''VECTOR'' None [] Absent Absent,
               RawNode ''1:4'' ''Slot'' ''FRAME'' None []
                 (JsArray [RawNode ''1:5'' ''Inner'' ''TEXT'' None [] Absent Absent]) Absent]"
  let ?ovs = "[Override (Some ''I1:1;X'')]"
  let ?node = "RawNode ''1:1'' ''Button'' ''INSTANCE'' None [] (JsArray ?ks) (JsArray ?ovs)"
  let ?opts = "\<lparr>maxDepth = None, nodeFilter = None, includeFullInstanceData = False\<rparr>"
  let ?ctx = "\<lparr>globalVars = \<lparr>styles = []\<rparr>, currentDepth = 0, options = ?opts, parent = None\<rparr>"
  let ?cs = "[SimplifiedNode ''X'' ''Label'' ''TEXT'' [] None,
              SimplifiedNode ''1:4'' ''Slot'' ''FRAME'' []
                (Some [SimplifiedNode ''1:5'' ''Inner'' ''TEXT'' [] None])]"
  let ?r = "SimplifiedNode ''1:1'' ''Button'' ''INSTANCE'' [] (Some ?cs)"
  have run: "processNodeWithExtractors ?node [] ?ctx ?opts = Inr (Some ?r, \<lparr>styles = []\<rparr>, [])"
    by (simp add: processNodeWithExtractors.simps shouldProcessNode_def
        isVisible_def shouldTraverseChildren_def hasValue_def isArray_def elems_def
        hasChildren_def lengthPositive_def childrenToProcess_def overrideNodeIds_def
        asArray_def overrideTarget_def baseResult_def)
  have "map s_id (case s_children ?r of None \<Rightarrow> [] | Some cs \<Rightarrow> cs)
          = map node_id
              (filter (\<lambda>c. shouldProcessNode c ?opts
                         \<and> (list_ex (\<lambda>ov. overrideTarget ov = Inr (Some (node_id c))) ?ovs
                            \<or> (hasValue (children c) \<and> isArray (children c)
                                \<and> length (elems (children c)) > 0)))
                 ?ks)"
    by (rule instance_children [OF run, THEN conjunct2, rule_format, of ?ovs ?ks]) simp_all
  then have "map s_id ?cs = [''X'', ''1:4'']"
    by (simp add: shouldProcessNode_def isVisible_def overrideTarget_def hasValue_def
          isArray_def elems_def)
  with run show ?thesis by simp
qed

section \<open>Retrying\<close>














section \<open>The caller's tree and repeated passes\<close>

lemma applyExtractors_store_preserves:
  "list_all preservesStore exs \<Longrightarrow> snd (applyExtractors_store exs store node r ctx) = store"
proof (induction exs arbitrary: r ctx)
  case Nil
  then show ?case by simp
next
  case (Cons e exs)
  then have "snd (e store node r ctx) = store" by (simp add: preservesStore_def)
  with Cons show ?case by (auto split: prod.splits)
qed

lemma mapProcess_store_preserved:
  assumes "\<And>store node ctx r gv store'.
             processNodeWithExtractors_store fuel store node exs ctx opts
               = Some (Inr (r, gv, store')) \<Longrightarrow> store' = store"
    and "mapProcess_store fuel store as exs ctx opts = Some (Inr (rs, gv, store'))"
  shows "store' = store"
  using assms(2)
proof (induction as arbitrary: store ctx rs gv)
  case Nil
  then show ?case by simp
next
  case (Cons a as)
  from Cons.prems obtain r1 g1 s1 rs1 where
    p: "processNodeWithExtractors_store fuel store a exs ctx opts = Some (Inr (r1, g1, s1))"
    and m: "mapProcess_store fuel s1 as exs (ctx\<lparr>st_globalVars := g1\<rparr>) opts
              = Some (Inr (rs1, gv, store'))"
    by (auto split: sum.splits option.splits)
  from assms(1) [OF p] Cons.IH [OF m] show ?case by simp
qed

lemma process_store_preserved:
  assumes "list_all preservesStore exs"
  shows "processNodeWithExtractors_store fuel store node exs ctx opts
           = Some (Inr (r, gv, store')) \<Longrightarrow> store' = store"
proof (induction fuel arbitrary: store node ctx r gv store')
  case 0
  then show ?case by simp
next
  case (Suc fuel)
  let ?x = "applyExtractors_store exs store node (baseResult_store (store node)) ctx"
  let ?c = "ctx\<lparr>st_globalVars := snd (fst ?x), st_currentDepth := st_currentDepth ctx + 1,
                st_parent := Some node\<rparr>"
  have ap: "snd ?x = store"
    using assms by (rule applyExtractors_store_preserves)
  show ?case
  proof (cases "shouldProcessNode_store store node opts
                \<and> shouldTraverseChildren_store store node ctx opts")
    case False
    with Suc.prems ap show ?thesis
      by (simp add: Let_def split: if_splits)
  next
    case gates: True
    show ?thesis
    proof (cases "hasChildren_store store node")
      case (Inl e)
      with Suc.prems ap gates show ?thesis by (simp add: Let_def)
    next
      case (Inr b)
      show ?thesis
      proof (cases b)
        case False
        with Suc.prems ap gates Inr show ?thesis by (simp add: Let_def)
      next
        case True
        show ?thesis
        proof (cases "childrenToProcess_store store node opts")
          case (Inl e)
          with Suc.prems ap gates Inr True show ?thesis by (simp add: Let_def)
        next
          case toProcess: (Inr toProcess)
          let ?m = "mapProcess_store fuel store
                      (filter (\<lambda>child. shouldProcessNode_store store child opts) toProcess)
                      exs ?c opts"
          from Suc.prems ap gates Inr True toProcess obtain mapped where
            "?m = Some (Inr (mapped, gv, store'))"
            by (auto simp: Let_def split: option.splits sum.splits prod.splits)
          then show ?thesis
            by (rule mapProcess_store_preserved [rotated]) (rule Suc.IH)
        qed
      qed
    qed
  qed
qed

text \<open>
  Claim C9. When no extractor of the list writes to the store, a pass of
  \<open>extractFromDesign\<close> that returns leaves the store as it was: every field of every node
  object is the same before and after, for every input and all options.
\<close>

theorem extractFromDesign_store_unchanged:
  assumes "list_all preservesStore exs"
    and "extractFromDesign_store fuel store roots exs opts gv = Some (Inr (out, gv', store'))"
  shows "store' = store"
proof -
  from assms(2) obtain mapped where
    "mapProcess_store fuel store
       (filter (\<lambda>node. shouldProcessNode_store store node opts) roots) exs
       \<lparr>st_globalVars = gv, st_currentDepth = 0, st_options = opts, st_parent = None\<rparr> opts
     = Some (Inr (mapped, gv', store'))"
    by (auto simp: extractFromDesign_store_def split: sum.splits option.splits)
  then show ?thesis
    by (rule mapProcess_store_preserved [rotated])
       (rule process_store_preserved [OF assms(1)])
qed

theorem extractFromDesign_store_unchanged_witness:
  "list_all preservesStore
     [\<lambda>store node result ctx.
        (((''seen'', obj_id (store node)) # s_fields result,
          \<lparr>styles = (obj_id (store node), obj_type (store node)) # styles (st_globalVars ctx)\<rparr>),
         store)]
   \<and> extractFromDesign_store 3
       (\<lambda>a. if a = 0
            then \<lparr>obj_id = ''0:1'', obj_name = ''Page'', obj_type = ''FRAME'', obj_visible = None,
                  obj_payload = [], obj_children = JsArray [1], obj_overrides = Absent\<rparr>
            else \<lparr>obj_id = ''0:2'', obj_name = ''Title'', obj_type = ''TEXT'', obj_visible = None,
                  obj_payload = [], obj_children = Absent, obj_overrides = Absent\<rparr>)
       [0]
       [\<lambda>store node result ctx.
          (((''seen'', obj_id (store node)) # s_fields result,
            \<lparr>styles = (obj_id (store node), obj_type (store node)) # styles (st_globalVars ctx)\<rparr>),
           store)]
       \<lparr>st_maxDepth = None, st_nodeFilter = None, st_includeFullInstanceData = False\<rparr>
       \<lparr>styles = []\<rparr>
     = Some (Inr ([SimplifiedNode ''0:1'' ''Page'' ''FRAME'' [(''seen'', ''0:1'')]
                     (Some [SimplifiedNode ''0:2'' ''Title'' ''TEXT'' [(''seen'', ''0:2'')] None])],
                  \<lparr>styles = [(''0:2'', ''TEXT''), (''0:1'', ''FRAME'')]\<rparr>,
                  (\<lambda>a. if a = 0
                     then \<lparr>obj_id = ''0:1'', obj_name = ''Page'', obj_type = ''FRAME'',
                           obj_visible = None,
                  obj_payload = [], obj_children = JsArray [1], obj_overrides = Absent\<rparr>
                     else \<lparr>obj_id = ''0:2'', obj_name = ''Title'', obj_type = ''TEXT'',
                           obj_visible = None,
                  obj_payload = [], obj_children = Absent, obj_overrides = Absent\<rparr>)))"
proof -
  let ?e = "\<lambda>(store::Store) node result ctx.
        (((''seen'', obj_id (store node)) # s_fields result,
          \<lparr>styles = (obj_id (store node), obj_type (store node)) # styles (st_globalVars ctx)\<rparr>),
         store)"
  let ?store = "\<lambda>a::nat. if a = 0
            then \<lparr>obj_id = ''0:1'', obj_name = ''Page'', obj_type = ''FRAME'', obj_visible = None,
                  obj_payload = [], obj_children = JsArray [1::nat], obj_overrides = Absent\<rparr>
            else \<lparr>obj_id = ''0:2'', obj_name = ''Title'', obj_type = ''TEXT'', obj_visible = None,
                  obj_payload = [], obj_children = Absent, obj_overrides = Absent\<rparr>"
  let ?opts = "\<lparr>st_maxDepth = None, st_nodeFilter = None, st_includeFullInstanceData = False\<rparr>"
  let ?out = "[SimplifiedNode ''0:1'' ''Page'' ''FRAME'' [(''seen'', ''0:1'')]
                     (Some [SimplifiedNode ''0:2'' ''Title'' ''TEXT'' [(''seen'', ''0:2'')] None])]"
  let ?gv = "\<lparr>styles = [(''0:2'', ''TEXT''), (''0:1'', ''FRAME'')]\<rparr>"
  have p: "list_all preservesStore [?e]"
    by (simp add: preservesStore_def)
  have "extractFromDesign_store 3 ?store [0] [?e] ?opts \<lparr>styles = []\<rparr>
            = Some (Inr (?out, ?gv, ?store))"
    by (simp add: extractFromDesign_store_def numeral_3_eq_3 shouldProcessNode_store_def
          isVisible_store_def shouldTraverseChildren_store_def hasValue_def isArray_def
          elems_def hasChildren_store_def lengthPositive_def asArray_def
          childrenToProcess_store_def baseResult_store_def)
  then obtain store' where
    run: "extractFromDesign_store 3 ?store [0] [?e] ?opts \<lparr>styles = []\<rparr>
            = Some (Inr (?out, ?gv, store'))"
    by (rule that)
  from extractFromDesign_store_unchanged [OF p run] have "store' = ?store" .
  with p run show ?thesis by simp
qed

lemma childrenToProcess_store_subset:
  "childrenToProcess_store store node opts = Inr cs
     \<Longrightarrow> set cs \<subseteq> set (elems (obj_children (store node)))"
  by (cases "obj_children (store node)")
     (auto simp: childrenToProcess_store_def asArray_def elems_def
           split: if_splits sum.splits)

lemma mapProcess_store_returns:
  assumes pres: "\<And>store node ctx r gv store'.
             processNodeWithExtractors_store fuel store node exs ctx opts
               = Some (Inr (r, gv, store')) \<Longrightarrow> store' = store"
    and ret: "\<And>node ctx. node \<in> set as \<Longrightarrow>
             processNodeWithExtractors_store fuel store node exs ctx opts \<noteq> None"
  shows "mapProcess_store fuel store as exs ctx opts \<noteq> None"
  using ret
proof (induction as arbitrary: ctx)
  case Nil
  then show ?case by simp
next
  case (Cons a as)
  obtain res where p: "processNodeWithExtractors_store fuel store a exs ctx opts = Some res"
    using Cons.prems [of a ctx] by auto
  show ?case
  proof (cases res)
    case (Inl e)
    with p show ?thesis by simp
  next
    case (Inr t)
    obtain r1 g1 s1 where t: "t = (r1, g1, s1)" by (cases t)
    with p Inr have "s1 = store" using pres by blast
    moreover have "mapProcess_store fuel store as exs (ctx\<lparr>st_globalVars := g1\<rparr>) opts \<noteq> None"
      using Cons.IH Cons.prems by simp
    ultimately show ?thesis using p Inr t by (auto split: sum.splits)
  qed
qed

lemma process_store_returns:
  assumes "list_all preservesStore exs"
  shows "within_depth fuel store node \<Longrightarrow>
           processNodeWithExtractors_store fuel store node exs ctx opts \<noteq> None"
proof (induction fuel arbitrary: node ctx)
  case 0
  then show ?case by simp
next
  case (Suc fuel)
  let ?x = "applyExtractors_store exs store node (baseResult_store (store node)) ctx"
  let ?c = "ctx\<lparr>st_globalVars := snd (fst ?x), st_currentDepth := st_currentDepth ctx + 1,
                st_parent := Some node\<rparr>"
  have ap: "snd ?x = store"
    using assms by (rule applyExtractors_store_preserves)
  have deep: "\<And>k. k \<in> set (elems (obj_children (store node)))
                \<Longrightarrow> within_depth fuel store k"
    using Suc.prems
    by (cases "obj_children (store node)") (auto simp: elems_def list_all_iff)
  show ?case
  proof (cases "shouldProcessNode_store store node opts
                \<and> shouldTraverseChildren_store store node ctx opts")
    case False
    with ap show ?thesis
      by (simp add: Let_def)
  next
    case gates: True
    show ?thesis
    proof (cases "hasChildren_store store node")
      case (Inl e)
      with ap gates show ?thesis by (simp add: Let_def)
    next
      case (Inr b)
      show ?thesis
      proof (cases b)
        case False
        with ap gates Inr show ?thesis by (simp add: Let_def)
      next
        case True
        show ?thesis
        proof (cases "childrenToProcess_store store node opts")
          case (Inl e)
          with ap gates Inr True show ?thesis by (simp add: Let_def)
        next
          case toProcess: (Inr toProcess)
          let ?m = "mapProcess_store fuel store
                      (filter (\<lambda>child. shouldProcessNode_store store child opts) toProcess)
                      exs ?c opts"
          have "?m \<noteq> None"
          proof (rule mapProcess_store_returns)
            fix k c
            assume "k \<in> set (filter (\<lambda>child. shouldProcessNode_store store child opts)
                                 toProcess)"
            then have "k \<in> set (elems (obj_children (store node)))"
              using childrenToProcess_store_subset [OF toProcess] by auto
            then show "processNodeWithExtractors_store fuel store k exs c opts \<noteq> None"
              using Suc.IH deep by blast
          qed (rule process_store_preserved [OF assms])
          then obtain res where "?m = Some res" by blast
          with ap gates Inr True toProcess show ?thesis
            by (cases res) (simp_all add: Let_def split: prod.splits)
        qed
      qed
    qed
  qed
qed

lemma extractFromDesign_store_returns:
  assumes "list_all preservesStore exs" and "list_all (within_depth fuel store) roots"
  shows "extractFromDesign_store fuel store roots exs opts gv \<noteq> None"
proof -
  have "mapProcess_store fuel store
       (filter (\<lambda>node. shouldProcessNode_store store node opts) roots) exs
       \<lparr>st_globalVars = gv, st_currentDepth = 0, st_options = opts, st_parent = None\<rparr> opts
       \<noteq> None"
    using assms(2)
    by (intro mapProcess_store_returns process_store_preserved [OF assms(1)]
          process_store_returns [OF assms(1)])
       (auto simp: list_all_iff)
  then show ?thesis
    by (auto simp: extractFromDesign_store_def split: sum.splits option.splits)
qed

text \<open>
  Claim C8. On a finite tree, with extractors that write nothing to the store and an empty
  style table, the pass ends; when it returns, a second pass over the same roots, in the
  store the first one left, with the same extractors and options and again an empty style
  table, returns the same output nodes and the same style table.
\<close>

theorem extractFromDesign_store_repeatable:
  assumes "list_all preservesStore exs" and "list_all (within_depth fuel store) roots"
  shows "\<exists>res. extractFromDesign_store fuel store roots exs opts \<lparr>styles = []\<rparr> = Some res
           \<and> (\<forall>out gv' store'. res = Inr (out, gv', store') \<longrightarrow>
                 extractFromDesign_store fuel store' roots exs opts \<lparr>styles = []\<rparr> = Some res)"
proof -
  obtain res where r: "extractFromDesign_store fuel store roots exs opts \<lparr>styles = []\<rparr> = Some res"
    using extractFromDesign_store_returns [OF assms] by blast
  have "extractFromDesign_store fuel store' roots exs opts \<lparr>styles = []\<rparr> = Some res"
    if "res = Inr (out, gv', store')" for out gv' store'
  proof -
    from r that obtain mapped where
      "mapProcess_store fuel store
         (filter (\<lambda>node. shouldProcessNode_store store node opts) roots) exs
         \<lparr>st_globalVars = \<lparr>styles = []\<rparr>, st_currentDepth = 0, st_options = opts,
          st_parent = None\<rparr> opts
       = Some (Inr (mapped, gv', store'))"
      by (auto simp: extractFromDesign_store_def split: sum.splits option.splits)
    then have "store' = store"
      by (rule mapProcess_store_preserved [rotated])
         (rule process_store_preserved [OF assms(1)])
    with r show ?thesis by simp
  qed
  with r show ?thesis by blast
qed

theorem extractFromDesign_store_repeatable_witness:
  "list_all (within_depth 3
       (\<lambda>a. if a = 0
            then \<lparr>obj_id = ''0:1'', obj_name = ''Page'', obj_type = ''FRAME'', obj_visible = None,
                  obj_payload = [], obj_children = JsArray [1], obj_overrides = Absent\<rparr>
            else \<lparr>obj_id = ''0:2'', obj_name = ''Title'', obj_type = ''TEXT'', obj_visible = None,
                  obj_payload = [], obj_children = Absent, obj_overrides = Absent\<rparr>)) [0]
   \<and> extractFromDesign_store 3
       (\<lambda>a. if a = 0
            then \<lparr>obj_id = ''0:1'', obj_name = ''Page'', obj_type = ''FRAME'', obj_visible = None,
                  obj_payload = [], obj_children = JsArray [1], obj_overrides = Absent\<rparr>
            else \<lparr>obj_id = ''0:2'', obj_name = ''Title'', obj_type = ''TEXT'', obj_visible = None,
                  obj_payload = [], obj_children = Absent, obj_overrides = Absent\<rparr>)
       [0]
       [\<lambda>store node result ctx.
          (((''seen'', obj_id (store node)) # s_fields result,
            \<lparr>styles = (obj_id (store node), obj_type (store node)) # styles (st_globalVars ctx)\<rparr>),
           store)]
       \<lparr>st_maxDepth = Some 1, st_nodeFilter = None, st_includeFullInstanceData = False\<rparr>
       \<lparr>styles = []\<rparr>
     = Some (Inr ([SimplifiedNode ''0:1'' ''Page'' ''FRAME'' [(''seen'', ''0:1'')]
                     (Some [SimplifiedNode ''0:2'' ''Title'' ''TEXT'' [(''seen'', ''0:2'')] None])],
                  \<lparr>styles = [(''0:2'', ''TEXT''), (''0:1'', ''FRAME'')]\<rparr>,
                  (\<lambda>a. if a = 0
                     then \<lparr>obj_id = ''0:1'', obj_name = ''Page'', obj_type = ''FRAME'',
                           obj_visible = None,
                  obj_payload = [], obj_children = JsArray [1], obj_overrides = Absent\<rparr>
                     else \<lparr>obj_id = ''0:2'', obj_name = ''Title'', obj_type = ''TEXT'',
                           obj_visible = None,
                  obj_payload = [], obj_children = Absent, obj_overrides = Absent\<rparr>)))"
proof -
  let ?e = "\<lambda>(store::Store) node result ctx.
        (((''seen'', obj_id (store node)) # s_fields result,
          \<lparr>styles = (obj_id (store node), obj_type (store node)) # styles (st_globalVars ctx)\<rparr>),
         store)"
  let ?store = "\<lambda>a::nat. if a = 0
            then \<lparr>obj_id = ''0:1'', obj_name = ''Page'', obj_type = ''FRAME'', obj_visible = None,
                  obj_payload = [], obj_children = JsArray [1::nat], obj_overrides = Absent\<rparr>
            else \<lparr>obj_id = ''0:2'', obj_name = ''Title'', obj_type = ''TEXT'', obj_visible = None,
                  obj_payload = [], obj_children = Absent, obj_overrides = Absent\<rparr>"
  let ?opts = "\<lparr>st_maxDepth = Some 1, st_nodeFilter = None, st_includeFullInstanceData = False\<rparr>"
  let ?out = "[SimplifiedNode ''0:1'' ''Page'' ''FRAME'' [(''seen'', ''0:1'')]
                     (Some [SimplifiedNode ''0:2'' ''Title'' ''TEXT'' [(''seen'', ''0:2'')] None])]"
  let ?gv = "\<lparr>styles = [(''0:2'', ''TEXT''), (''0:1'', ''FRAME'')]\<rparr>"
  have p: "list_all preservesStore [?e]"
    by (simp add: preservesStore_def)
  have d: "list_all (within_depth 3 ?store) [0]"
    by (simp add: numeral_3_eq_3)
  have first: "extractFromDesign_store 3 ?store [0] [?e] ?opts \<lparr>styles = []\<rparr>
            = Some (Inr (?out, ?gv, ?store))"
    by (simp add: extractFromDesign_store_def numeral_3_eq_3 shouldProcessNode_store_def
          isVisible_store_def shouldTraverseChildren_store_def hasValue_def isArray_def
          elems_def hasChildren_store_def lengthPositive_def asArray_def
          childrenToProcess_store_def baseResult_store_def)
  from extractFromDesign_store_repeatable [OF p d, of ?opts] first
  have "extractFromDesign_store 3 ?store [0] [?e] ?opts \<lparr>styles = []\<rparr>
            = Some (Inr (?out, ?gv, ?store))"
    by auto
  with d show ?thesis by simp
qed

end
